theory Spec2Isabelle
  imports Main "HOL-Library.Word"
begin

unbundle bit_operations_syntax

section \<open>The DDP capture loop of capture\_ddp.py\<close>

text \<open>
  The program is one function, \<open>main\<close>, whose body is a receive loop over UDP datagrams.
  The model below follows that loop block by block. One iteration of the loop is the
  function \<open>step\<close>; the local variables of \<open>main\<close> that live across iterations are the
  fields of the record \<open>state\<close>; the output file is the log \<open>sink\<close> of the writes made
  to it. Python integers are \<open>int\<close>, bytes are 8-bit words, dictionaries are association
  lists in insertion order (the order in which Python iterates them).

  What the loop takes from its environment is part of the event it processes: the bytes of
  the datagram, and the readings of \<open>datetime.now()\<close> (in microseconds, the resolution of
  \<open>datetime\<close>) at each place where the loop reads the clock. Console output is not
  modelled; the statistics computed for it are, where they can raise. Failures of the
  socket, of the file system and of memory allocation, and the keyboard interrupt, are
  outside the model.
\<close>

type_synonym byte = "8 word"

subsection \<open>Python helpers\<close>

text \<open>\<open>xs[i:j]\<close> for \<open>0 \<le> i \<le> j\<close>: Python clamps both ends to the length.\<close>

definition slice_list :: "nat \<Rightarrow> nat \<Rightarrow> 'a list \<Rightarrow> 'a list" where
  "slice_list i j xs = take (j - i) (drop i xs)"

text \<open>\<open>xs[:m]\<close>, also for a negative \<open>m\<close> (which counts from the end).\<close>

definition prefix_to :: "int \<Rightarrow> 'a list \<Rightarrow> 'a list" where
  "prefix_to m xs = (if 0 \<le> m then take (nat m) xs else take (length xs - nat (- m)) xs)"

text \<open>
  \<open>b[i:j] = payload\<close> on a bytearray, for \<open>0 \<le> i \<le> j\<close>: the bytes from \<open>i\<close> up to \<open>j\<close>
  (both clamped to the length) are replaced by the payload.
\<close>

definition slice_assign :: "'a list \<Rightarrow> nat \<Rightarrow> nat \<Rightarrow> 'a list \<Rightarrow> 'a list" where
  "slice_assign b i j payload = take i b @ payload @ drop j b"

text \<open>\<open>struct.unpack(">I", bs)\<close> and \<open>struct.unpack(">H", bs)\<close>: unsigned, most significant byte first.\<close>

definition unpack_be :: "byte list \<Rightarrow> int" where
  "unpack_be bs = foldl (\<lambda>acc b. acc * 256 + uint b) 0 bs"

text \<open>\<open>x.to_bytes(n, byteorder="little")\<close>: OverflowError (here \<open>None\<close>) for a negative \<open>x\<close> or one that needs more than \<open>n\<close> bytes.\<close>

definition to_bytes_le :: "nat \<Rightarrow> int \<Rightarrow> byte list option" where
  "to_bytes_le n x =
     (if x < 0 \<or> 256 ^ n \<le> x then None
      else Some (map (\<lambda>i. word_of_int (x div 256 ^ i)) [0..<n]))"

text \<open>A dictionary assignment \<open>d[k] = v\<close>: an existing key keeps its place, a new one goes last.\<close>

primrec dict_set :: "'k \<Rightarrow> 'v \<Rightarrow> ('k \<times> 'v) list \<Rightarrow> ('k \<times> 'v) list" where
  "dict_set k v [] = [(k, v)]"
| "dict_set k v (p # ps) = (if fst p = k then (k, v) # ps else p # dict_set k v ps)"

definition is_empty_bytearray :: "byte list \<Rightarrow> bool" where
  "is_empty_bytearray input_data = (count_list input_data 0 = length input_data)"

subsection \<open>Data\<close>

datatype error = Value_error | Overflow_error | Key_error | Unbound_local_error | Zero_division_error

text \<open>The two ways the output file is written: opened with \<open>"wb"\<close> (created or truncated) and with \<open>"ab"\<close> (appended).\<close>

datatype file_write = Create "byte list" | Append "byte list"

text \<open>
  The command-line arguments the loop reads, and the one floating-point computation of the
  loop, \<open>int(cur_time.total_seconds() * 1_000)\<close>, as a function \<open>time_ms\<close> of the
  microseconds of \<open>cur_time\<close>: it is a parameter of the model, and every theorem holds for
  every such function. The argument parser accepts only a positive \<open>number_of_strings\<close>
  (\<open>check_positive_int\<close>, default 1); the theorems about whole sessions assume it.
\<close>

record config =
  number_of_strings :: int
  seconds_to_capture :: "int option"
  time_ms :: "int \<Rightarrow> int"

text \<open>
  The readings of \<open>datetime.now()\<close> while one datagram is processed, in microseconds, by
  the place of the call: when capture starts (\<open>start_time\<close>, then \<open>last_frame_time\<close>), when a
  frame is complete (\<open>cur_time\<close>), after it is written (\<open>last_frame_time\<close>), for the report
  every 40 frames, and for the capture limit.
\<close>

record clock =
  now_start :: int
  now_last :: int
  now_frame :: int
  now_written :: int
  now_report :: int
  now_limit :: int

text \<open>One turn of the loop: \<open>recvfrom\<close> returns a datagram, or times out (after one second) and the clock is read.\<close>

datatype event = Datagram "byte list" clock | Recv_timeout int

datatype decode_error = Too_short | Truncated_timecode | Payload_length_mismatch

record header =
  flags1 :: byte
  flags2 :: byte
  data_type :: byte
  string_id :: byte
  offset :: int
  length_field :: int
  has_timecode :: bool
  timecode :: "int option"
  payload :: "byte list"

text \<open>
  The variables of \<open>main\<close>. \<open>start_time\<close> and \<open>frames_written\<close> are not bound before their
  first assignment: \<open>None\<close>, and reading them then raises.
\<close>

record state =
  strings_ranges :: "(int \<times> int \<times> int) list"
  next_assigned :: int
  packets_seen :: int
  start :: int
  is_beginning :: bool
  empty_frames :: int
  collecting :: bool
  buffers :: "(int \<times> byte list) list"
  filled_count :: "(int \<times> int) list"
  max_bytes :: "int option"
  last_frame_time :: "int option"
  start_time :: "int option"
  frames_written :: "int option"
  sink :: "file_write list"

definition init_state :: state where
  "init_state = \<lparr>strings_ranges = [], next_assigned = 1, packets_seen = 0, start = 0,
     is_beginning = True, empty_frames = 0, collecting = False, buffers = [],
     filled_count = [], max_bytes = None, last_frame_time = None, start_time = None,
     frames_written = None, sink = []\<rparr>"

text \<open>A block of the loop body ends normally or raises; the state is the one at that point.\<close>

datatype 'a result = Ok 'a | Raise error state

datatype exit_reason = Idle_timeout | Duration_limit

text \<open>
  One iteration ends with the loop going on, with \<open>main\<close> returning, or with an exception
  that nothing catches (only KeyboardInterrupt is caught).
\<close>

datatype outcome = Continue state | Finished exit_reason state | Crashed error state

fun outcome_state :: "outcome \<Rightarrow> state" where
  "outcome_state (Continue st) = st"
| "outcome_state (Finished r st) = st"
| "outcome_state (Crashed e st) = st"

subsection \<open>Parsing a datagram (lines 77 to 123)\<close>

definition decode :: "byte list \<Rightarrow> decode_error + header" where
  "decode data =
     (if length data < 10 then Inl Too_short
      else
        let f1 = data ! 0;
            off = unpack_be (slice_list 4 8 data);
            len = unpack_be (slice_list 8 10 data);
            tc = (f1 AND 0x10 \<noteq> 0)
        in if tc \<and> \<not> 14 \<le> length data then Inl Truncated_timecode
           else
             let pos = (if tc then 14 else 10);
                 pl = slice_list pos (pos + nat len) data
             in if int (length pl) \<noteq> len then Inl Payload_length_mismatch
                else Inr \<lparr>flags1 = f1, flags2 = data ! 1, data_type = data ! 2,
                          string_id = data ! 3, offset = off, length_field = len,
                          has_timecode = tc,
                          timecode = (if tc then Some (unpack_be (slice_list 10 14 data)) else None),
                          payload = pl\<rparr>)"

definition push_flag :: "header \<Rightarrow> bool" where
  "push_flag h = (flags1 h AND 0x01 \<noteq> 0)"

subsection \<open>Learning the string ranges (lines 125 to 166)\<close>

definition learn_range :: "header \<Rightarrow> state \<Rightarrow> state" where
  "learn_range h st =
     (if \<not> collecting st \<and> push_flag h then
        let end = offset h + length_field h
        in st\<lparr>strings_ranges := dict_set (next_assigned st) (start st, end) (strings_ranges st),
               next_assigned := next_assigned st + 1,
               start := end\<rparr>
      else st)"

text \<open>\<open>max(e - s for (s, e) in strings_ranges.values())\<close>: ValueError (here \<open>None\<close>) on an empty dictionary.\<close>

definition max_string_len :: "(int \<times> int \<times> int) list \<Rightarrow> int option" where
  "max_string_len rs =
     (case map (\<lambda>(n, s, e). e - s) rs of [] \<Rightarrow> None | x # xs \<Rightarrow> Some (foldl max x xs))"

text \<open>The allocation loop: \<open>bytearray(n)\<close> raises ValueError for a negative \<open>n\<close>.\<close>

fun allocate :: "(int \<times> int \<times> int) list \<Rightarrow> state \<Rightarrow> state result" where
  "allocate [] st = Ok st"
| "allocate ((string_num, s, e) # rs) st =
     (let length_bytes = e - s
      in if length_bytes < 0 then Raise Value_error st
         else allocate rs
                (st\<lparr>buffers := dict_set string_num (replicate (nat length_bytes) 0) (buffers st),
                    filled_count := dict_set string_num 0 (filled_count st)\<rparr>))"

text \<open>
  The block run when all ranges are learned. The file is opened with \<open>"wb"\<close> before
  \<open>to_bytes\<close> is evaluated, so an OverflowError leaves it created and empty. The source
  computes \<open>max_string_len\<close> and \<open>max_pixels\<close> a second time after the allocation, from the
  same dictionary.
\<close>

definition finalize :: "state \<Rightarrow> state result" where
  "finalize st =
     (case max_string_len (strings_ranges st) of
        None \<Rightarrow> Raise Value_error st
      | Some msl \<Rightarrow>
          let max_pixels = msl div 3
          in (case to_bytes_le 2 max_pixels of
                None \<Rightarrow> Raise Overflow_error (st\<lparr>sink := sink st @ [Create []]\<rparr>)
              | Some hdr \<Rightarrow>
                  (case allocate (strings_ranges st) (st\<lparr>sink := sink st @ [Create hdr]\<rparr>) of
                     Raise err st' \<Rightarrow> Raise err st'
                   | Ok st' \<Rightarrow>
                       Ok (st'\<lparr>max_bytes := Some (max_pixels * 3), collecting := True,
                               frames_written := Some 0\<rparr>))))"

definition discover :: "config \<Rightarrow> header \<Rightarrow> state \<Rightarrow> state result" where
  "discover cfg h st =
     (let st1 = learn_range h st
      in if \<not> collecting st1 \<and> number_of_strings cfg \<le> int (length (strings_ranges st1))
         then finalize st1 else Ok st1)"

subsection \<open>Assembling frames (lines 180 to 242)\<close>

text \<open>The loop over the ranges with its \<open>break\<close>: the first range the packet fits in takes it.\<close>

fun write_payload :: "(int \<times> int \<times> int) list \<Rightarrow> header \<Rightarrow> state \<Rightarrow> (bool \<times> state) result" where
  "write_payload [] h st = Ok (False, st)"
| "write_payload ((string_num, s, e) # rs) h st =
     (if s \<le> offset h \<and> offset h + length_field h \<le> e then
        let rel_off = offset h - s
        in (case map_of (buffers st) string_num of
              None \<Rightarrow> Raise Key_error st
            | Some b \<Rightarrow>
                let st1 = st\<lparr>buffers := dict_set string_num
                              (slice_assign b (nat rel_off) (nat (rel_off + length_field h)) (payload h))
                              (buffers st)\<rparr>
                in (case map_of (filled_count st1) string_num of
                      None \<Rightarrow> Raise Key_error st1
                    | Some c \<Rightarrow>
                        Ok (True, st1\<lparr>filled_count :=
                                       dict_set string_num (c + length_field h) (filled_count st1)\<rparr>)))
      else write_payload rs h st)"

text \<open>\<open>all(filled_count.get(n, 0) == len(buffers[n]) for n in buffers)\<close>\<close>

definition all_full :: "state \<Rightarrow> bool" where
  "all_full st =
     list_all (\<lambda>(n, b). (case map_of (filled_count st) n of None \<Rightarrow> 0 | Some c \<Rightarrow> c) = int (length b))
       (buffers st)"

definition frame_part :: "int option \<Rightarrow> byte list \<Rightarrow> byte list" where
  "frame_part mb b =
     (case mb of
        None \<Rightarrow> b
      | Some m \<Rightarrow>
          if int (length b) < m then b @ replicate (nat (m - int (length b))) 0
          else prefix_to m b)"

definition frame_data :: "state \<Rightarrow> byte list" where
  "frame_data st =
     concat (map (\<lambda>n. case map_of (buffers st) n of None \<Rightarrow> [] | Some b \<Rightarrow> frame_part (max_bytes st) b)
                 (sort (map fst (buffers st))))"

definition reset_buffers :: "state \<Rightarrow> state" where
  "reset_buffers st =
     st\<lparr>buffers := map (\<lambda>(n, b). (n, replicate (length b) 0)) (buffers st),
        filled_count := fold (\<lambda>n fc. dict_set n 0 fc) (map fst (buffers st)) (filled_count st)\<rparr>"

text \<open>
  The block run when all buffers are full. \<open>elapsed >= seconds_to_capture\<close> compares a
  float of seconds with an int; on microseconds it is \<open>seconds * 1000000 \<le> elapsed\<close>
  (exact for any capture limit below \<open>10 ^ 9\<close> seconds). The two divisions by
  \<open>elapsed_time_ms\<close> raise ZeroDivisionError when no microsecond has elapsed.
\<close>

definition complete_frame :: "config \<Rightarrow> clock \<Rightarrow> state \<Rightarrow> outcome" where
  "complete_frame cfg ck st =
     (case start_time st of
        None \<Rightarrow> Crashed Unbound_local_error st
      | Some t0 \<Rightarrow>
          (case to_bytes_le 4 (time_ms cfg (now_frame ck - t0)) of
             None \<Rightarrow> Crashed Overflow_error st
           | Some time_header \<Rightarrow>
               let st1 = st\<lparr>sink := sink st @ [Append (time_header @ frame_data st)],
                            last_frame_time := Some (now_written ck)\<rparr>
               in (case frames_written st1 of
                     None \<Rightarrow> Crashed Unbound_local_error st1
                   | Some fw \<Rightarrow>
                       let st2 = st1\<lparr>frames_written := Some (fw + 1)\<rparr>
                       in if (fw + 1) mod 40 = 0 \<and> now_report ck - t0 = 0
                          then Crashed Zero_division_error st2
                          else
                            (case seconds_to_capture cfg of
                               None \<Rightarrow> Continue (reset_buffers st2)
                             | Some secs \<Rightarrow>
                                 if secs \<noteq> 0 \<and> secs * 1000000 \<le> now_limit ck - t0 then
                                   (if now_limit ck - t0 = 0 then Crashed Zero_division_error st2
                                    else Finished Duration_limit st2)
                                 else Continue (reset_buffers st2)))))"

definition assemble :: "config \<Rightarrow> clock \<Rightarrow> header \<Rightarrow> state \<Rightarrow> outcome" where
  "assemble cfg ck h st =
     (case write_payload (strings_ranges st) h st of
        Raise err st' \<Rightarrow> Crashed err st'
      | Ok (written, st1) \<Rightarrow>
          if \<not> written then Continue st1
          else if all_full st1 then complete_frame cfg ck st1
          else Continue st1)"

subsection \<open>The loop body\<close>

text \<open>Lines 125 to 242: what is done with a datagram that parsed.\<close>

definition handle_packet :: "config \<Rightarrow> clock \<Rightarrow> header \<Rightarrow> state \<Rightarrow> outcome" where
  "handle_packet cfg ck h st =
     (case discover cfg h st of
        Raise err st' \<Rightarrow> Crashed err st'
      | Ok st2 \<Rightarrow>
          if is_beginning st2 \<and> is_empty_bytearray (payload h)
          then Continue (st2\<lparr>empty_frames := empty_frames st2 + 1\<rparr>)
          else
            let st3 = (if is_beginning st2
                       then st2\<lparr>is_beginning := False, start_time := Some (now_start ck),
                                last_frame_time := Some (now_last ck)\<rparr>
                       else st2)
            in if collecting st3 then assemble cfg ck h st3 else Continue st3)"

text \<open>
  Lines 62 to 75: the receive timed out. \<open>time_since_last_frame >= 5.0\<close> is
  \<open>5000000 \<le> now - last_frame_time\<close> on microseconds.
\<close>

definition handle_timeout :: "int \<Rightarrow> state \<Rightarrow> outcome" where
  "handle_timeout now st =
     (case last_frame_time st of
        Some lft \<Rightarrow>
          if collecting st \<and> \<not> is_beginning st \<and> 5000000 \<le> now - lft then
            (case start_time st of
               None \<Rightarrow> Crashed Unbound_local_error st
             | Some t0 \<Rightarrow>
                 (case frames_written st of
                    None \<Rightarrow> Crashed Unbound_local_error st
                  | Some fw \<Rightarrow>
                      if 0 < fw \<and> lft - t0 = 0 then Crashed Zero_division_error st
                      else Finished Idle_timeout st))
          else Continue st
      | None \<Rightarrow> Continue st)"

text \<open>
  One iteration. \<open>packets_seen\<close> is incremented after the two length checks of the header
  and before the check of the payload length.
\<close>

fun step :: "config \<Rightarrow> event \<Rightarrow> state \<Rightarrow> outcome" where
  "step cfg (Recv_timeout now) st = handle_timeout now st"
| "step cfg (Datagram data ck) st =
     (case decode data of
        Inl Too_short \<Rightarrow> Continue st
      | Inl Truncated_timecode \<Rightarrow> Continue st
      | Inl Payload_length_mismatch \<Rightarrow> Continue (st\<lparr>packets_seen := packets_seen st + 1\<rparr>)
      | Inr h \<Rightarrow> handle_packet cfg ck h (st\<lparr>packets_seen := packets_seen st + 1\<rparr>))"

text \<open>The loop over a sequence of events: it ends at the first iteration that does not continue.\<close>

fun run :: "config \<Rightarrow> event list \<Rightarrow> state \<Rightarrow> outcome" where
  "run cfg [] st = Continue st"
| "run cfg (ev # evs) st =
     (case step cfg ev st of
        Continue st' \<Rightarrow> run cfg evs st'
      | Finished r st' \<Rightarrow> Finished r st'
      | Crashed err st' \<Rightarrow> Crashed err st')"

subsection \<open>Observations and invariants of the loop\<close>

fun crash_of :: "outcome \<Rightarrow> error option" where
  "crash_of (Crashed err st) = Some err"
| "crash_of (Continue st) = None"
| "crash_of (Finished r st) = None"

fun exit_of :: "outcome \<Rightarrow> exit_reason option" where
  "exit_of (Finished r st) = Some r"
| "exit_of (Continue st) = None"
| "exit_of (Crashed err st) = None"

fun is_create :: "file_write \<Rightarrow> bool" where
  "is_create (Create bs) = True"
| "is_create (Append bs) = False"

text \<open>
  The ranges in assignment order start at \<open>c\<close>, each starts where the one before it ends,
  and the last one ends at \<open>t\<close>.
\<close>

fun contiguous_from :: "int \<Rightarrow> (int \<times> int \<times> int) list \<Rightarrow> int \<Rightarrow> bool" where
  "contiguous_from c [] t = (c = t)"
| "contiguous_from c ((n, s, e) # rs) t = (s = c \<and> contiguous_from e rs t)"

text \<open>The half-open intervals of the ranges are pairwise disjoint.\<close>

fun no_overlap :: "(int \<times> int \<times> int) list \<Rightarrow> bool" where
  "no_overlap [] = True"
| "no_overlap ((n, s, e) # rs) = ((\<forall>(n', s', e') \<in> set rs. {s..<e} \<inter> {s'..<e'} = {}) \<and> no_overlap rs)"

definition covered :: "(int \<times> int \<times> int) list \<Rightarrow> int set" where
  "covered rs = (\<Union>(n, s, e) \<in> set rs. {s..<e})"

text \<open>What the range learner keeps true of its three variables, at every point of every run.\<close>

definition ranges_inv :: "state \<Rightarrow> bool" where
  "ranges_inv st =
     (1 \<le> next_assigned st \<and>
      map fst (strings_ranges st) = [1..next_assigned st - 1] \<and>
      contiguous_from 0 (strings_ranges st) (start st))"

text \<open>The packet fits entirely in the range: the test of the loop over the ranges.\<close>

definition fits :: "header \<Rightarrow> int \<times> int \<times> int \<Rightarrow> bool" where
  "fits h r = (case r of (n, s, e) \<Rightarrow> s \<le> offset h \<and> offset h + length_field h \<le> e)"

text \<open>
  Discovery has been finalized: \<open>max_bytes\<close> is the largest range length rounded down to
  whole pixels, and the file starts with the one header record, followed by appends only.
\<close>

definition finalized :: "state \<Rightarrow> bool" where
  "finalized st =
     (case max_string_len (strings_ranges st) of
        None \<Rightarrow> False
      | Some msl \<Rightarrow>
          max_bytes st = Some (msl div 3 * 3) \<and>
          (case sink st of
             [] \<Rightarrow> False
           | w # ws \<Rightarrow> Some w = map_option Create (to_bytes_le 2 (msl div 3)) \<and>
                       list_all (\<lambda>w. \<not> is_create w) ws))"

text \<open>
  The invariant of the loop: what holds of the variables whenever \<open>recvfrom\<close> is called,
  and of the state the assembler is handed.
\<close>

definition wf :: "config \<Rightarrow> state \<Rightarrow> bool" where
  "wf cfg st =
     (ranges_inv st \<and>
      (\<forall>c \<in> set (map snd (filled_count st)). 0 \<le> c) \<and>
      (is_beginning st \<or> (start_time st \<noteq> None \<and> last_frame_time st \<noteq> None)) \<and>
      (if collecting st then
         map fst (buffers st) = map fst (strings_ranges st) \<and>
         map fst (filled_count st) = map fst (strings_ranges st) \<and>
         map (\<lambda>(n, b). int (length b)) (buffers st) = map (\<lambda>(n, s, e). e - s) (strings_ranges st) \<and>
         int (length (strings_ranges st)) = number_of_strings cfg \<and>
         frames_written st \<noteq> None \<and>
         finalized st
       else
         buffers st = [] \<and> filled_count st = [] \<and> sink st = [] \<and>
         int (length (strings_ranges st)) < number_of_strings cfg))"

text \<open>Some buffer has counted more bytes than it holds.\<close>

definition overfull :: "state \<Rightarrow> bool" where
  "overfull st =
     (\<exists>n \<in> set (map fst (buffers st)).
        case map_of (buffers st) n of
          None \<Rightarrow> False
        | Some b \<Rightarrow> (case map_of (filled_count st) n of None \<Rightarrow> False | Some c \<Rightarrow> int (length b) < c))"



text \<open>The three variables of the range learner are the same in both states.\<close>

definition same_ranges :: "state \<Rightarrow> state \<Rightarrow> bool" where
  "same_ranges st st' = (strings_ranges st' = strings_ranges st \<and> next_assigned st' = next_assigned st \<and> start st' = start st)"

subsection \<open>Example inputs\<close>

text \<open>
  The millisecond conversion without rounding error, truncated towards zero as \<open>int()\<close>
  does. On a whole number of seconds the floating-point computation of the source gives
  the same value.
\<close>

definition whole_ms :: "int \<Rightarrow> int" where
  "whole_ms us = (if 0 \<le> us then us div 1000 else - ((- us) div 1000))"

definition example_config :: "int \<Rightarrow> config" where
  "example_config n = \<lparr>number_of_strings = n, seconds_to_capture = None, time_ms = whole_ms\<rparr>"

text \<open>A clock that reads \<open>t\<close> microseconds at every call while one datagram is processed.\<close>

definition clock_at :: "int \<Rightarrow> clock" where
  "clock_at t = \<lparr>now_start = t, now_last = t, now_frame = t, now_written = t,
                 now_report = t, now_limit = t\<rparr>"


text \<open>
  Two states of a session. In the first, one string has been learned from a push packet
  with an all-zero payload, and nothing but zeros has arrived. In the second, two strings
  have been learned from two push packets with payloads \<open>1 2 3\<close> and \<open>4 5 6\<close>.
\<close>

definition example_skipping :: state where
  "example_skipping = \<lparr>strings_ranges = [(1, 0, 3)], next_assigned = 2, packets_seen = 1, start = 3,
     is_beginning = True, empty_frames = 1, collecting = True, buffers = [(1, [0, 0, 0])],
     filled_count = [(1, 0)], max_bytes = Some 3, last_frame_time = None, start_time = None,
     frames_written = Some 0, sink = [Create [1, 0]]\<rparr>"

definition example_capturing :: state where
  "example_capturing = \<lparr>strings_ranges = [(1, 0, 3), (2, 3, 6)], next_assigned = 3, packets_seen = 2,
     start = 6, is_beginning = False, empty_frames = 0, collecting = True,
     buffers = [(1, [0, 0, 0]), (2, [4, 5, 6])], filled_count = [(1, 0), (2, 3)],
     max_bytes = Some 3, last_frame_time = Some 0, start_time = Some 0,
     frames_written = Some 0, sink = [Create [1, 0]]\<rparr>"

text \<open>
  A third state: one string of six bytes; a push packet for bytes 3 to 5 and then a packet
  for bytes 0 to 5 have been written, so that nine bytes are counted.
\<close>

definition example_overfull :: state where
  "example_overfull = \<lparr>strings_ranges = [(1, 0, 6)], next_assigned = 2, packets_seen = 2, start = 6,
     is_beginning = False, empty_frames = 0, collecting = True,
     buffers = [(1, [1, 2, 3, 4, 5, 6])], filled_count = [(1, 9)], max_bytes = Some 6,
     last_frame_time = Some 0, start_time = Some 0, frames_written = Some 0,
     sink = [Create [2, 0]]\<rparr>"


section \<open>Properties of the helpers\<close>

lemma map_of_dict_set: "map_of (dict_set k v al) = (map_of al)(k \<mapsto> v)"
  by (induction al) (auto simp: fun_eq_iff)

lemma keys_dict_set:
  "map fst (dict_set k v al) = (if k \<in> fst ` set al then map fst al else map fst al @ [k])"
  by (induction al) auto

lemma dict_set_fresh: "k \<notin> fst ` set al \<Longrightarrow> dict_set k v al = al @ [(k, v)]"
  by (induction al) auto

lemma dict_set_map_same:
  "map_of al k = Some b \<Longrightarrow> g (k, v) = g (k, b) \<Longrightarrow> map g (dict_set k v al) = map g al"
  by (induction al) (auto split: if_splits)

lemma values_dict_set: "set (map snd (dict_set k v al)) \<subseteq> insert v (set (map snd al))"
  by (induction al) auto

lemma unpack_be_acc: "0 \<le> a \<Longrightarrow> 0 \<le> foldl (\<lambda>acc b. acc * 256 + uint (b::byte)) a bs"
  by (induction bs arbitrary: a) auto

lemma unpack_be_nonneg: "0 \<le> unpack_be bs"
  by (simp add: unpack_be_def unpack_be_acc)

lemma decode_Inr:
  assumes "decode d = Inr h"
  shows "0 \<le> length_field h" and "0 \<le> offset h" and "int (length (payload h)) = length_field h"
  using assms
  by (auto simp: decode_def Let_def unpack_be_nonneg split: if_splits)

subsection \<open>The range learner keeps its invariant, in every outcome\<close>

lemma contiguous_from_snoc:
  "contiguous_from c rs t \<Longrightarrow> contiguous_from c (rs @ [(n, t, e)]) e"
  by (induction c rs t rule: contiguous_from.induct) auto

lemma learn_range_inv: "ranges_inv st \<Longrightarrow> ranges_inv (learn_range h st)"
proof -
  assume inv: "ranges_inv st"
  have fresh: "next_assigned st \<notin> fst ` set (strings_ranges st)"
  proof
    assume "next_assigned st \<in> fst ` set (strings_ranges st)"
    then have "next_assigned st \<in> set (map fst (strings_ranges st))" by simp
    with inv show False by (simp add: ranges_inv_def)
  qed
  have up: "[1..next_assigned st] = [1..next_assigned st - 1] @ [next_assigned st]"
    using inv by (simp add: ranges_inv_def upto_rec2)
  show ?thesis
    using inv fresh up
    by (simp add: learn_range_def Let_def ranges_inv_def dict_set_fresh contiguous_from_snoc)
qed

lemma allocate_same:
  "(case allocate rs st of Ok st' \<Rightarrow> same_ranges st st' | Raise err st' \<Rightarrow> same_ranges st st')"
proof (induction rs arbitrary: st)
  case Nil
  show ?case by (simp add: same_ranges_def)
next
  case (Cons r rs)
  obtain n s e where r: "r = (n, s, e)" by (cases r)
  show ?case
    using Cons.IH [where st="st\<lparr>buffers := dict_set n (replicate (nat (e - s)) 0) (buffers st),
                    filled_count := dict_set n 0 (filled_count st)\<rparr>"]
    by (auto simp: r Let_def same_ranges_def split: result.splits)
qed

lemma finalize_same:
  "(case finalize st of Ok st' \<Rightarrow> same_ranges st st' | Raise err st' \<Rightarrow> same_ranges st st')"
  using allocate_same [where rs="strings_ranges st" and st="st\<lparr>sink := sink st @ [Create (the (to_bytes_le 2 (the (max_string_len (strings_ranges st)) div 3)))]\<rparr>"]
  by (auto simp: finalize_def Let_def same_ranges_def split: option.splits result.splits)

lemma ranges_inv_same: "same_ranges st st' \<Longrightarrow> ranges_inv st \<Longrightarrow> ranges_inv st'"
  by (simp add: same_ranges_def ranges_inv_def)

lemma discover_inv:
  "ranges_inv st \<Longrightarrow> (case discover cfg h st of Ok st' \<Rightarrow> ranges_inv st' | Raise err st' \<Rightarrow> ranges_inv st')"
  using finalize_same [where st="learn_range h st"] learn_range_inv [of st h]
  by (auto simp: discover_def Let_def split: result.splits intro: ranges_inv_same)

lemma write_payload_same:
  "(case write_payload rs h st of Ok (w, st') \<Rightarrow> same_ranges st st' | Raise err st' \<Rightarrow> same_ranges st st')"
  by (induction rs h st rule: write_payload.induct)
     (auto simp: Let_def same_ranges_def split: option.splits result.splits)

lemma reset_buffers_same: "same_ranges st (reset_buffers st)"
  by (simp add: reset_buffers_def same_ranges_def)

lemma complete_frame_same: "same_ranges st (outcome_state (complete_frame cfg ck st))"
  by (auto simp: complete_frame_def Let_def same_ranges_def reset_buffers_def split: option.splits)

lemma same_ranges_trans: "same_ranges a b \<Longrightarrow> same_ranges b c \<Longrightarrow> same_ranges a c"
  by (simp add: same_ranges_def)

lemma assemble_same: "same_ranges st (outcome_state (assemble cfg ck h st))"
  using write_payload_same [where rs="strings_ranges st" and h=h and st=st]
  by (auto simp: assemble_def split: result.splits intro: same_ranges_trans complete_frame_same)

lemma handle_packet_inv:
  assumes "ranges_inv st" shows "ranges_inv (outcome_state (handle_packet cfg ck h st))"
proof (cases "discover cfg h st")
  case (Raise err st')
  with discover_inv [OF assms, of cfg h] show ?thesis by (simp add: handle_packet_def)
next
  case (Ok st2)
  with discover_inv [OF assms, of cfg h] have inv2: "ranges_inv st2" by simp
  let ?st3 = "st2\<lparr>is_beginning := False, start_time := Some (now_start ck),
                                last_frame_time := Some (now_last ck)\<rparr>"
  have a: "ranges_inv (outcome_state (assemble cfg ck h st2))"
    using assemble_same [of st2 cfg ck h] inv2 by (rule ranges_inv_same)
  have inv3: "ranges_inv ?st3" using inv2 by (simp add: ranges_inv_def)
  have b: "ranges_inv (outcome_state (assemble cfg ck h ?st3))"
    using assemble_same [of ?st3 cfg ck h] inv3 by (rule ranges_inv_same)
  have c: "ranges_inv (st2\<lparr>empty_frames := empty_frames st2 + 1\<rparr>)"
    using inv2 by (simp add: ranges_inv_def)
  show ?thesis using Ok a b c inv2 inv3 by (simp add: handle_packet_def Let_def)
qed

lemma handle_timeout_state: "outcome_state (handle_timeout now st) = st"
  by (auto simp: handle_timeout_def split: option.splits)

lemma step_inv: "ranges_inv st \<Longrightarrow> ranges_inv (outcome_state (step cfg ev st))"
proof (cases ev)
  case (Recv_timeout now)
  assume "ranges_inv st"
  then show ?thesis by (simp add: Recv_timeout handle_timeout_state)
next
  case (Datagram d ck)
  assume inv: "ranges_inv st"
  then have inv1: "ranges_inv (st\<lparr>packets_seen := packets_seen st + 1\<rparr>)"
    by (simp add: ranges_inv_def)
  show ?thesis
    using inv inv1 handle_packet_inv [OF inv1]
    by (simp add: Datagram split: sum.splits decode_error.splits)
qed

lemma run_inv: "ranges_inv st \<Longrightarrow> ranges_inv (outcome_state (run cfg evs st))"
proof (induction evs arbitrary: st)
  case Nil
  then show ?case by simp
next
  case (Cons ev evs)
  from step_inv [OF Cons.prems, of cfg ev]
  show ?case using Cons.IH by (cases "step cfg ev st") auto
qed

lemma init_ranges_inv: "ranges_inv init_state"
  by (simp add: ranges_inv_def init_state_def)

section \<open>The invariant of the loop\<close>

lemma init_wf: "0 < number_of_strings cfg \<Longrightarrow> wf cfg init_state"
  by (simp add: wf_def init_ranges_inv) (simp add: init_state_def)

lemma ranges_keys_distinct: "ranges_inv st \<Longrightarrow> distinct (map fst (strings_ranges st))"
  by (simp add: ranges_inv_def)

lemma allocate_Ok:
  "allocate rs st = Ok st' \<Longrightarrow> distinct (map fst rs) \<Longrightarrow>
   fst ` set rs \<inter> fst ` set (buffers st) = {} \<Longrightarrow>
   fst ` set rs \<inter> fst ` set (filled_count st) = {} \<Longrightarrow>
   st' = st\<lparr>buffers := buffers st @ map (\<lambda>(n, s, e). (n, replicate (nat (e - s)) 0)) rs,
            filled_count := filled_count st @ map (\<lambda>(n, s, e). (n, 0)) rs\<rparr>
   \<and> (\<forall>(n, s, e) \<in> set rs. 0 \<le> e - s)"
proof (induction rs arbitrary: st)
  case Nil
  then show ?case by simp
next
  case (Cons r rs)
  obtain n s e where r: "r = (n, s, e)" by (cases r)
  let ?st1 = "st\<lparr>buffers := dict_set n (replicate (nat (e - s)) 0) (buffers st),
                 filled_count := dict_set n 0 (filled_count st)\<rparr>"
  from Cons.prems(1) have nonneg: "0 \<le> e - s" and rec: "allocate rs ?st1 = Ok st'"
    by (auto simp: r Let_def split: if_splits)
  from Cons.prems(3) have fb: "n \<notin> fst ` set (buffers st)" by (auto simp: r)
  from Cons.prems(4) have ff: "n \<notin> fst ` set (filled_count st)" by (auto simp: r)
  have b1: "buffers ?st1 = buffers st @ [(n, replicate (nat (e - s)) 0)]"
    using fb by (simp add: dict_set_fresh)
  have f1: "filled_count ?st1 = filled_count st @ [(n, 0)]"
    using ff by (simp add: dict_set_fresh)
  have d: "distinct (map fst rs)" and nn: "n \<notin> fst ` set rs"
    using Cons.prems(2) by (auto simp: r)
  have i1: "fst ` set rs \<inter> fst ` set (buffers ?st1) = {}"
    using Cons.prems(3) nn by (auto simp: b1 r)
  have i2: "fst ` set rs \<inter> fst ` set (filled_count ?st1) = {}"
    using Cons.prems(4) nn by (auto simp: f1 r)
  from Cons.IH [OF rec d i1 i2] nonneg show ?case
    by (simp add: r b1 f1 fb ff dict_set_fresh)
qed

lemma alloc_keys: "map fst (map (\<lambda>(n, s, e). (n, f s e)) rs) = map fst rs"
  by (induction rs) auto

lemma alloc_lengths:
  "\<forall>(n, s, e) \<in> set rs. 0 \<le> e - s \<Longrightarrow>
   map (\<lambda>(n, b). int (length b)) (map (\<lambda>(n, s, e). (n, replicate (nat (e - s)) (0::byte))) rs)
   = map (\<lambda>(n, s, e). e - s) rs"
  by (induction rs) auto

lemma finalize_wf:
  assumes inv: "ranges_inv st" and nc: "\<not> collecting st"
    and empty: "buffers st = []" "filled_count st = []" "sink st = []"
    and len: "int (length (strings_ranges st)) = number_of_strings cfg"
    and beg: "is_beginning st \<or> (start_time st \<noteq> None \<and> last_frame_time st \<noteq> None)"
    and fin: "finalize st = Ok st'"
  shows "wf cfg st'"
proof -
  from fin obtain msl hdr st'' where
      msl: "max_string_len (strings_ranges st) = Some msl"
    and hdr: "to_bytes_le 2 (msl div 3) = Some hdr"
    and al: "allocate (strings_ranges st) (st\<lparr>sink := sink st @ [Create hdr]\<rparr>) = Ok st''"
    and st': "st' = st''\<lparr>max_bytes := Some (msl div 3 * 3), collecting := True, frames_written := Some 0\<rparr>"
    by (auto simp: finalize_def Let_def split: option.splits result.splits)
  from allocate_Ok [OF al ranges_keys_distinct [OF inv]] empty
  have st'': "st'' = st\<lparr>sink := [Create hdr],
                        buffers := map (\<lambda>(n, s, e). (n, replicate (nat (e - s)) 0)) (strings_ranges st),
                        filled_count := map (\<lambda>(n, s, e). (n, 0)) (strings_ranges st)\<rparr>"
    and nonneg: "\<forall>(n, s, e) \<in> set (strings_ranges st). 0 \<le> e - s"
    by simp_all
  have ri: "ranges_inv st'" using inv by (simp add: st' st'' ranges_inv_def)
  have vals: "\<forall>c \<in> set (map snd (filled_count st')). 0 \<le> c"
    by (auto simp: st' st'')
  have fin': "finalized st'"
    using msl hdr by (simp add: finalized_def st' st'')
  show ?thesis
    unfolding wf_def
    using ri vals beg len alloc_lengths [OF nonneg] fin'
    by (auto simp: st' st'' split: prod.splits)
qed

lemma discover_wf:
  assumes wf: "wf cfg st" and d: "discover cfg h st = Ok st'"
  shows "wf cfg st'"
proof (cases "\<not> collecting st \<and> push_flag h")
  case False
  then have "learn_range h st = st" by (auto simp: learn_range_def)
  with d wf show ?thesis
    by (auto simp: discover_def Let_def wf_def split: if_splits)
next
  case True
  let ?st1 = "learn_range h st"
  have inv1: "ranges_inv ?st1" using wf by (simp add: wf_def learn_range_inv)
  have nc1: "\<not> collecting ?st1" using True by (simp add: learn_range_def Let_def)
  have same: "buffers ?st1 = []" "filled_count ?st1 = []" "sink ?st1 = []"
      "is_beginning ?st1 = is_beginning st" "start_time ?st1 = start_time st"
      "last_frame_time ?st1 = last_frame_time st"
    using wf True by (simp_all add: learn_range_def Let_def wf_def)
  have beg: "is_beginning ?st1 \<or> (start_time ?st1 \<noteq> None \<and> last_frame_time ?st1 \<noteq> None)"
    using wf by (simp add: same) (simp add: wf_def)
  have len1: "int (length (strings_ranges ?st1)) \<le> number_of_strings cfg"
  proof -
    have "next_assigned st \<notin> fst ` set (strings_ranges st)"
    proof
      assume "next_assigned st \<in> fst ` set (strings_ranges st)"
      then have "next_assigned st \<in> set (map fst (strings_ranges st))" by simp
      with wf show False by (simp add: wf_def ranges_inv_def)
    qed
    then have "length (strings_ranges ?st1) = Suc (length (strings_ranges st))"
      using True by (simp add: learn_range_def Let_def dict_set_fresh)
    moreover have "int (length (strings_ranges st)) < number_of_strings cfg"
      using wf True by (simp add: wf_def)
    ultimately show ?thesis by simp
  qed
  show ?thesis
  proof (cases "number_of_strings cfg \<le> int (length (strings_ranges ?st1))")
    case full: True
    with d nc1 have fin: "finalize ?st1 = Ok st'" by (simp add: discover_def Let_def)
    from full len1 have "int (length (strings_ranges ?st1)) = number_of_strings cfg" by simp
    from finalize_wf [OF inv1 nc1 same(1-3) this beg fin] show ?thesis .
  next
    case notfull: False
    with d have "st' = ?st1" by (simp add: discover_def Let_def)
    then show ?thesis
      unfolding wf_def using inv1 nc1 same beg notfull wf by (simp add: wf_def)
  qed
qed

lemma assoc_pos:
  "map fst xs = map fst ys \<Longrightarrow> map F xs = map G ys \<Longrightarrow>
   map_of xs k = Some v \<Longrightarrow> map_of ys k = Some w \<Longrightarrow> F (k, v) = G (k, w)"
proof (induction xs arbitrary: ys)
  case Nil
  then show ?case by simp
next
  case (Cons x xs)
  then obtain y ys' where ys: "ys = y # ys'" by (cases ys) auto
  show ?case
  proof (cases "fst x = k")
    case True
    with Cons.prems ys show ?thesis by (cases x; cases y) auto
  next
    case False
    with Cons.prems ys have "map_of xs k = Some v" "map_of ys' k = Some w"
      "map fst xs = map fst ys'" "map F xs = map G ys'"
      by (auto split: if_splits)
    with Cons.IH show ?thesis by blast
  qed
qed

lemma finalized_cong:
  "strings_ranges st' = strings_ranges st \<Longrightarrow> max_bytes st' = max_bytes st \<Longrightarrow>
   sink st' = sink st \<Longrightarrow> finalized st' = finalized st"
  by (auto simp: finalized_def split: option.splits list.splits)

lemma finalized_append:
  "finalized st \<Longrightarrow> strings_ranges st' = strings_ranges st \<Longrightarrow> max_bytes st' = max_bytes st \<Longrightarrow>
   sink st' = sink st @ [Append x] \<Longrightarrow> finalized st'"
  by (auto simp: finalized_def split: option.splits list.splits)

lemma slice_assign_length:
  assumes "0 \<le> r" "0 \<le> l" "r + l \<le> int (length b)" "int (length p) = l"
  shows "length (slice_assign b (nat r) (nat (r + l)) p) = length b"
  using assms by (auto simp: slice_assign_def min_def nat_add_distrib)

lemma buffer_length:
  assumes wf: "wf cfg st" and c: "collecting st"
    and r: "(n, s, e) \<in> set (strings_ranges st)" and b: "map_of (buffers st) n = Some b"
  shows "int (length b) = e - s"
proof -
  have d: "distinct (map fst (strings_ranges st))"
    using wf by (simp add: wf_def ranges_keys_distinct)
  with r have m: "map_of (strings_ranges st) n = Some (s, e)" by simp
  have k: "map fst (buffers st) = map fst (strings_ranges st)"
    and l: "map (\<lambda>(n, b). int (length b)) (buffers st) = map (\<lambda>(n, s, e). e - s) (strings_ranges st)"
    using wf c by (simp_all add: wf_def)
  from assoc_pos [OF k l b m] show ?thesis by simp
qed

lemma write_payload_wf:
  assumes wf: "wf cfg st" and c: "collecting st"
    and len: "0 \<le> length_field h" and pl: "int (length (payload h)) = length_field h"
  shows "set rs \<subseteq> set (strings_ranges st) \<Longrightarrow> write_payload rs h st = Ok (w, st') \<Longrightarrow> wf cfg st'"
proof (induction rs)
  case Nil
  with wf show ?case by simp
next
  case (Cons r rs)
  obtain n s e where r: "r = (n, s, e)" by (cases r)
  show ?case
  proof (cases "s \<le> offset h \<and> offset h + length_field h \<le> e")
    case False
    with Cons show ?thesis by (simp add: r)
  next
    case True
    from Cons.prems(1) have mem: "(n, s, e) \<in> set (strings_ranges st)" by (simp add: r)
    from Cons.prems(2) True obtain b cnt where
        b: "map_of (buffers st) n = Some b" and cnt: "map_of (filled_count st) n = Some cnt"
      and st': "st' = st\<lparr>buffers := dict_set n
                  (slice_assign b (nat (offset h - s)) (nat (offset h - s + length_field h)) (payload h)) (buffers st),
                filled_count := dict_set n (cnt + length_field h) (filled_count st)\<rparr>"
      by (auto simp: r Let_def split: option.splits)
    from buffer_length [OF wf c mem b] have bl: "int (length b) = e - s" .
    have lb: "length (slice_assign b (nat (offset h - s)) (nat (offset h - s + length_field h)) (payload h)) = length b"
      using True len pl bl by (intro slice_assign_length) auto
    have kb: "n \<in> fst ` set (buffers st)" using b by (metis map_of_eq_None_iff option.distinct(1))
    have kf: "n \<in> fst ` set (filled_count st)" using cnt by (metis map_of_eq_None_iff option.distinct(1))
    have cn: "0 \<le> cnt"
    proof -
      from cnt have "(n, cnt) \<in> set (filled_count st)" by (rule map_of_SomeD)
      then have "cnt \<in> set (map snd (filled_count st))" by force
      with wf show ?thesis by (auto simp: wf_def)
    qed
    have vals: "\<forall>c \<in> set (map snd (filled_count st')). 0 \<le> c"
    proof
      fix c assume "c \<in> set (map snd (filled_count st'))"
      then have "c \<in> insert (cnt + length_field h) (set (map snd (filled_count st)))"
        using values_dict_set [of n "cnt + length_field h" "filled_count st"] by (auto simp: st')
      with wf cn len show "0 \<le> c" by (auto simp: wf_def)
    qed
    have lens: "map (\<lambda>(n, b). int (length b)) (buffers st') = map (\<lambda>(n, b). int (length b)) (buffers st)"
      using dict_set_map_same [OF b, of "\<lambda>(n, b). int (length b)"] lb by (simp add: st')
    have ri: "ranges_inv st'" using wf by (simp add: st' wf_def ranges_inv_def)
    have fin: "finalized st'"
      using wf c finalized_cong [of st' st] by (simp add: wf_def st')
    show ?thesis
      unfolding wf_def using wf c ri vals lens kb kf fin
      by (simp add: wf_def) (simp add: st' keys_dict_set)
  qed
qed

lemma fold_dict_set_keys:
  "set ks \<subseteq> fst ` set fc \<Longrightarrow> map fst (fold (\<lambda>n fc. dict_set n v fc) ks fc) = map fst fc"
proof (induction ks arbitrary: fc)
  case Nil
  then show ?case by simp
next
  case (Cons k ks)
  then have k: "k \<in> fst ` set fc" by simp
  then have m: "map fst (dict_set k v fc) = map fst fc" by (simp add: keys_dict_set)
  then have "fst ` set (dict_set k v fc) = fst ` set fc" by (metis set_map)
  with Cons.prems have "set ks \<subseteq> fst ` set (dict_set k v fc)" by simp
  from Cons.IH [OF this] m show ?case by simp
qed

lemma fold_dict_set_values:
  "set (map snd (fold (\<lambda>n fc. dict_set n v fc) ks fc)) \<subseteq> insert v (set (map snd fc))"
proof (induction ks arbitrary: fc)
  case Nil
  then show ?case by auto
next
  case (Cons k ks)
  from Cons.IH [of "dict_set k v fc"] values_dict_set [of k v fc]
  show ?case by auto
qed


lemma reset_keys: "map fst (map (\<lambda>(n, b). (n, f b)) bs) = map fst bs"
  by (induction bs) auto

lemma reset_lengths:
  "map (\<lambda>(n, b). int (length b)) (map (\<lambda>(n, b). (n, replicate (length b) (0::byte))) bs)
   = map (\<lambda>(n, b). int (length b)) bs"
  by (induction bs) auto

lemma reset_buffers_wf:
  assumes wf: "wf cfg st" and c: "collecting st"
  shows "wf cfg (reset_buffers st)"
proof -
  let ?st' = "reset_buffers st"
  have keys: "map fst (buffers st) = map fst (filled_count st)"
    using wf c by (simp add: wf_def)
  then have sub: "set (map fst (buffers st)) \<subseteq> fst ` set (filled_count st)" by (metis set_map subset_refl)
  have kf: "map fst (filled_count ?st') = map fst (filled_count st)"
    using fold_dict_set_keys [OF sub] by (simp add: reset_buffers_def)
  have kb: "map fst (buffers ?st') = map fst (buffers st)"
    by (auto simp: reset_buffers_def)
  have lens: "map (\<lambda>(n, b). int (length b)) (buffers ?st') = map (\<lambda>(n, b). int (length b)) (buffers st)"
    by (auto simp: reset_buffers_def split: prod.splits)
  have vals: "\<forall>c \<in> set (map snd (filled_count ?st')). 0 \<le> c"
  proof
    fix c assume "c \<in> set (map snd (filled_count ?st'))"
    then have "c \<in> insert 0 (set (map snd (filled_count st)))"
      using fold_dict_set_values [of 0 "map fst (buffers st)" "filled_count st"]
      by (auto simp: reset_buffers_def)
    with wf show "0 \<le> c" by (auto simp: wf_def)
  qed
  have ri: "ranges_inv ?st'" using wf by (simp add: reset_buffers_def wf_def ranges_inv_def)
  have rest: "strings_ranges ?st' = strings_ranges st" "collecting ?st' = collecting st"
     "is_beginning ?st' = is_beginning st" "start_time ?st' = start_time st"
     "last_frame_time ?st' = last_frame_time st" "frames_written ?st' = frames_written st"
     "max_bytes ?st' = max_bytes st" "sink ?st' = sink st"
    by (simp_all add: reset_buffers_def)
  have fin: "finalized ?st'"
    using wf c finalized_cong [of ?st' st] by (simp add: wf_def rest)
  show ?thesis
    unfolding wf_def using wf c ri vals fin
    by (simp add: wf_def) (simp add: rest kf kb lens)
qed

lemma complete_frame_Continue:
  assumes "complete_frame cfg ck st = Continue st'"
  shows "\<exists>th fw. st' = reset_buffers (st\<lparr>sink := sink st @ [Append (th @ frame_data st)],
                 last_frame_time := Some (now_written ck), frames_written := Some (fw + 1)\<rparr>)"
proof (cases "start_time st")
  case None
  with assms show ?thesis by (simp add: complete_frame_def)
next
  case t0: (Some t0)
  show ?thesis
  proof (cases "to_bytes_le 4 (time_ms cfg (now_frame ck - t0))")
    case None
    with assms t0 show ?thesis by (simp add: complete_frame_def)
  next
    case th: (Some th)
    show ?thesis
    proof (cases "frames_written st")
      case None
      with assms t0 th show ?thesis by (simp add: complete_frame_def)
    next
      case (Some fw)
      with assms t0 th have
        "st' = reset_buffers (st\<lparr>sink := sink st @ [Append (th @ frame_data st)],
                 last_frame_time := Some (now_written ck), frames_written := Some (fw + 1)\<rparr>)"
        by (simp add: complete_frame_def Let_def split: if_splits option.splits)
      then show ?thesis by blast
    qed
  qed
qed

lemma complete_frame_wf:
  assumes wf: "wf cfg st" and c: "collecting st" and k: "complete_frame cfg ck st = Continue st'"
  shows "wf cfg st'"
proof -
  from complete_frame_Continue [OF k] obtain th fw where
    st': "st' = reset_buffers (st\<lparr>sink := sink st @ [Append (th @ frame_data st)],
                 last_frame_time := Some (now_written ck), frames_written := Some (fw + 1)\<rparr>)"
    by blast
  let ?st2 = "st\<lparr>sink := sink st @ [Append (th @ frame_data st)],
                 last_frame_time := Some (now_written ck), frames_written := Some (fw + 1)\<rparr>"
  have ri: "ranges_inv ?st2" using wf by (simp add: wf_def ranges_inv_def)
  have "finalized st" using wf c by (simp add: wf_def)
  then have fin: "finalized ?st2" by (rule finalized_append) simp_all
  have "wf cfg ?st2"
    unfolding wf_def using wf c ri fin
    by (auto simp: wf_def)
  moreover have "collecting ?st2" using c by simp
  ultimately show ?thesis unfolding st' by (rule reset_buffers_wf)
qed

lemma write_payload_frame:
  "write_payload rs h st = Ok (w, st') \<Longrightarrow>
   collecting st' = collecting st \<and> sink st' = sink st \<and> max_bytes st' = max_bytes st \<and>
   start_time st' = start_time st \<and> last_frame_time st' = last_frame_time st \<and>
   frames_written st' = frames_written st \<and> is_beginning st' = is_beginning st \<and>
   strings_ranges st' = strings_ranges st \<and> packets_seen st' = packets_seen st \<and>
   empty_frames st' = empty_frames st \<and> next_assigned st' = next_assigned st \<and> start st' = start st"
proof (induction rs h st rule: write_payload.induct)
  case (1 h st)
  then show ?case by simp
next
  case (2 n s e rs h st)
  show ?case
  proof (cases "s \<le> offset h \<and> offset h + length_field h \<le> e")
    case True
    with "2.prems" show ?thesis
      by (auto simp: Let_def split: option.splits)
  next
    case False
    with 2 show ?thesis by simp
  qed
qed

lemma write_payload_collecting:
  "write_payload rs h st = Ok (w, st') \<Longrightarrow> collecting st' = collecting st"
  by (simp add: write_payload_frame)

lemma assemble_wf:
  assumes wf: "wf cfg st" and c: "collecting st"
    and len: "0 \<le> length_field h" and pl: "int (length (payload h)) = length_field h"
    and k: "assemble cfg ck h st = Continue st'"
  shows "wf cfg st'"
proof (cases "write_payload (strings_ranges st) h st")
  case (Raise err s)
  with k show ?thesis by (simp add: assemble_def)
next
  case (Ok p)
  obtain w st1 where p: "p = (w, st1)" by (cases p)
  have wp: "write_payload (strings_ranges st) h st = Ok (w, st1)" using Ok p by simp
  from write_payload_wf [OF wf c len pl subset_refl wp] have wf1: "wf cfg st1" .
  from write_payload_collecting [OF wp] c have c1: "collecting st1" by simp
  show ?thesis
    using k Ok p wf1 complete_frame_wf [OF wf1 c1]
    by (auto simp: assemble_def split: if_splits)
qed

lemma wf_counted: "wf cfg st \<Longrightarrow> wf cfg (st\<lparr>packets_seen := x\<rparr>)"
proof -
  assume w: "wf cfg st"
  have f: "finalized (st\<lparr>packets_seen := x\<rparr>) = finalized st" by (rule finalized_cong) simp_all
  have r: "ranges_inv (st\<lparr>packets_seen := x\<rparr>) = ranges_inv st" by (simp add: ranges_inv_def)
  show ?thesis using w unfolding wf_def f r by simp
qed

lemma wf_skipped: "wf cfg st \<Longrightarrow> wf cfg (st\<lparr>empty_frames := x\<rparr>)"
proof -
  assume w: "wf cfg st"
  have f: "finalized (st\<lparr>empty_frames := x\<rparr>) = finalized st" by (rule finalized_cong) simp_all
  have r: "ranges_inv (st\<lparr>empty_frames := x\<rparr>) = ranges_inv st" by (simp add: ranges_inv_def)
  show ?thesis using w unfolding wf_def f r by simp
qed

lemma wf_started:
  "wf cfg st \<Longrightarrow> wf cfg (st\<lparr>is_beginning := False, start_time := Some a, last_frame_time := Some b\<rparr>)"
proof -
  assume w: "wf cfg st"
  let ?st = "st\<lparr>is_beginning := False, start_time := Some a, last_frame_time := Some b\<rparr>"
  have f: "finalized ?st = finalized st" by (rule finalized_cong) simp_all
  have r: "ranges_inv ?st = ranges_inv st" by (simp add: ranges_inv_def)
  show ?thesis using w unfolding wf_def f r by simp
qed

text \<open>The state the assembler is handed, when it is handed one.\<close>

lemma handle_packet_wf:
  assumes wf: "wf cfg st"
    and len: "0 \<le> length_field h" and pl: "int (length (payload h)) = length_field h"
    and k: "handle_packet cfg ck h st = Continue st'"
  shows "wf cfg st'"
proof (cases "discover cfg h st")
  case (Raise err s)
  with k show ?thesis by (simp add: handle_packet_def)
next
  case (Ok st2)
  from discover_wf [OF wf Ok] have wf2: "wf cfg st2" .
  show ?thesis
  proof (cases "is_beginning st2 \<and> is_empty_bytearray (payload h)")
    case True
    with k Ok have "st' = st2\<lparr>empty_frames := empty_frames st2 + 1\<rparr>"
      by (simp add: handle_packet_def)
    then show ?thesis using wf_skipped [OF wf2] by simp
  next
    case nskip: False
    show ?thesis
    proof (cases "is_beginning st2")
      case True
      let ?st3 = "st2\<lparr>is_beginning := False, start_time := Some (now_start ck),
                      last_frame_time := Some (now_last ck)\<rparr>"
      have wf3: "wf cfg ?st3" using wf2 by (rule wf_started)
      show ?thesis
      proof (cases "collecting st2")
        case c: True
        with k Ok nskip True have "assemble cfg ck h ?st3 = Continue st'"
          by (simp add: handle_packet_def)
        moreover have "collecting ?st3" using c by simp
        ultimately show ?thesis using assemble_wf [OF wf3 _ len pl] by blast
      next
        case c: False
        with k Ok nskip True have "st' = ?st3" by (simp add: handle_packet_def)
        with wf3 show ?thesis by simp
      qed
    next
      case False
      show ?thesis
      proof (cases "collecting st2")
        case c: True
        with k Ok nskip False have "assemble cfg ck h st2 = Continue st'"
          by (simp add: handle_packet_def)
        from assemble_wf [OF wf2 c len pl this] show ?thesis .
      next
        case c: False
        with k Ok nskip False have "st' = st2" by (simp add: handle_packet_def)
        with wf2 show ?thesis by simp
      qed
    qed
  qed
qed

lemma step_wf:
  assumes wf: "wf cfg st" and k: "step cfg ev st = Continue st'"
  shows "wf cfg st'"
proof (cases ev)
  case (Recv_timeout now)
  with k have "st' = st" by (auto simp: handle_timeout_def split: option.splits if_splits)
  with wf show ?thesis by simp
next
  case (Datagram d ck)
  show ?thesis
  proof (cases "decode d")
    case (Inl e)
    with k Datagram wf show ?thesis by (cases e) (auto simp: wf_counted)
  next
    case (Inr h)
    with k Datagram have "handle_packet cfg ck h (st\<lparr>packets_seen := packets_seen st + 1\<rparr>) = Continue st'"
      by simp
    from handle_packet_wf [OF wf_counted [OF wf] decode_Inr(1) [OF Inr] decode_Inr(3) [OF Inr] this]
    show ?thesis .
  qed
qed

lemma run_wf: "wf cfg st \<Longrightarrow> run cfg evs st = Continue st' \<Longrightarrow> wf cfg st'"
proof (induction evs arbitrary: st)
  case Nil
  then show ?case by simp
next
  case (Cons ev evs)
  from Cons.prems(2) obtain st1 where s: "step cfg ev st = Continue st1" and r: "run cfg evs st1 = Continue st'"
    by (cases "step cfg ev st") auto
  from Cons.IH [OF step_wf [OF Cons.prems(1) s] r] show ?case .
qed

lemma reachable_wf:
  "0 < number_of_strings cfg \<Longrightarrow> run cfg evs init_state = Continue st \<Longrightarrow> wf cfg st"
  by (rule run_wf [OF init_wf])

text \<open>
  The states the blocks of an iteration are handed, in any session: the one with the
  datagram counted, the one after discovery, and the one in which capture has started.
\<close>

lemma handed_state_wf:
  assumes "0 < number_of_strings cfg" and "run cfg evs init_state = Continue st"
    and "discover cfg h (st\<lparr>packets_seen := packets_seen st + 1\<rparr>) = Ok st2"
  shows "wf cfg (st\<lparr>packets_seen := packets_seen st + 1\<rparr>)" and "wf cfg st2"
    and "wf cfg (st2\<lparr>is_beginning := False, start_time := Some a, last_frame_time := Some b\<rparr>)"
proof -
  from reachable_wf [OF assms(1,2)] have "wf cfg st" .
  then show 1: "wf cfg (st\<lparr>packets_seen := packets_seen st + 1\<rparr>)" by (rule wf_counted)
  from discover_wf [OF 1 assms(3)] show 2: "wf cfg st2" .
  from 2 show "wf cfg (st2\<lparr>is_beginning := False, start_time := Some a, last_frame_time := Some b\<rparr>)"
    by (rule wf_started)
qed

lemma run_append:
  "run cfg (evs @ evs') st = (case run cfg evs st of Continue st' \<Rightarrow> run cfg evs' st' | out \<Rightarrow> out)"
  by (induction evs arbitrary: st) (auto split: outcome.splits)

section \<open>Decoding and the blocks of the loop body\<close>








lemma allocate_frame:
  "allocate rs st = Ok st' \<Longrightarrow>
   is_beginning st' = is_beginning st \<and> start_time st' = start_time st \<and>
   last_frame_time st' = last_frame_time st \<and> packets_seen st' = packets_seen st \<and>
   empty_frames st' = empty_frames st \<and> sink st' = sink st \<and> collecting st' = collecting st"
proof (induction rs arbitrary: st)
  case Nil
  then show ?case by simp
next
  case (Cons r rs)
  obtain n s e where r: "r = (n, s, e)" by (cases r)
  let ?st1 = "st\<lparr>buffers := dict_set n (replicate (nat (e - s)) 0) (buffers st),
                 filled_count := dict_set n 0 (filled_count st)\<rparr>"
  from Cons.prems have "allocate rs ?st1 = Ok st'"
    by (auto simp: r Let_def split: if_splits)
  from Cons.IH [OF this] show ?case by simp
qed

lemma discover_frame:
  assumes "discover cfg h st = Ok st'"
  shows "is_beginning st' = is_beginning st \<and> start_time st' = start_time st \<and>
   last_frame_time st' = last_frame_time st \<and> packets_seen st' = packets_seen st \<and>
   empty_frames st' = empty_frames st"
proof (cases "\<not> collecting (learn_range h st) \<and> number_of_strings cfg \<le> int (length (strings_ranges (learn_range h st)))")
  case False
  with assms have "st' = learn_range h st" by (auto simp: discover_def Let_def split: if_splits)
  then show ?thesis by (simp add: learn_range_def Let_def)
next
  case True
  with assms have f: "finalize (learn_range h st) = Ok st'" by (simp add: discover_def Let_def)
  let ?st1 = "learn_range h st"
  from f obtain msl hdr st'' where
      al: "allocate (strings_ranges ?st1) (?st1\<lparr>sink := sink ?st1 @ [Create hdr]\<rparr>) = Ok st''"
    and st': "st' = st''\<lparr>max_bytes := Some (msl div 3 * 3), collecting := True, frames_written := Some 0\<rparr>"
    by (auto simp: finalize_def Let_def split: option.splits result.splits)
  from allocate_frame [OF al] show ?thesis
    by (simp add: st' learn_range_def Let_def)
qed

lemma discover_collecting: "collecting st \<Longrightarrow> discover cfg h st = Ok st"
  by (simp add: discover_def learn_range_def)

lemma complete_frame_not_idle: "complete_frame cfg ck st \<noteq> Finished Idle_timeout st'"
  by (auto simp: complete_frame_def Let_def split: option.splits)

lemma assemble_not_idle: "assemble cfg ck h st \<noteq> Finished Idle_timeout st'"
  using complete_frame_not_idle
  by (auto simp: assemble_def split: result.splits)

lemma handle_packet_not_idle: "handle_packet cfg ck h st \<noteq> Finished Idle_timeout st'"
  using assemble_not_idle
  by (auto simp: handle_packet_def Let_def split: result.splits)

lemma assemble_frame:
  assumes "assemble cfg ck h st = Continue st'"
  shows "is_beginning st' = is_beginning st \<and> start_time st' = start_time st"
proof (cases "write_payload (strings_ranges st) h st")
  case (Raise err s)
  with assms show ?thesis by (simp add: assemble_def)
next
  case (Ok p)
  obtain w st1 where p: "p = (w, st1)" by (cases p)
  have wp: "write_payload (strings_ranges st) h st = Ok (w, st1)" using Ok p by simp
  from write_payload_frame [OF wp] have f1: "is_beginning st1 = is_beginning st" "start_time st1 = start_time st"
    by simp_all
  show ?thesis
  proof (cases "w \<and> all_full st1")
    case True
    with assms wp have "complete_frame cfg ck st1 = Continue st'" by (simp add: assemble_def)
    from complete_frame_Continue [OF this] obtain th fw where
      "st' = reset_buffers (st1\<lparr>sink := sink st1 @ [Append (th @ frame_data st1)],
                 last_frame_time := Some (now_written ck), frames_written := Some (fw + 1)\<rparr>)"
      by blast
    with f1 show ?thesis by (simp add: reset_buffers_def)
  next
    case False
    with assms wp have "st' = st1" by (auto simp: assemble_def split: if_splits)
    with f1 show ?thesis by simp
  qed
qed

lemma is_empty_bytearray_iff: "is_empty_bytearray p \<longleftrightarrow> (\<forall>b \<in> set p. b = 0)"
proof -
  have "count_list p 0 = length p \<longleftrightarrow> (\<forall>b \<in> set p. b = 0)"
  proof (induction p)
    case Nil
    show ?case by simp
  next
    case (Cons a p)
    have "count_list p 0 \<le> length p" by (rule count_le_length)
    with Cons show ?case by auto
  qed
  then show ?thesis by (simp add: is_empty_bytearray_def)
qed

section \<open>Ranges that follow one another\<close>

lemma contiguous_partition:
  "contiguous_from c rs t \<Longrightarrow> \<forall>(n, s, e) \<in> set rs. s \<le> e \<Longrightarrow>
   c \<le> t \<and> covered rs = {c..<t} \<and> no_overlap rs"
proof (induction c rs t rule: contiguous_from.induct)
  case (1 c t)
  then show ?case by (simp add: covered_def)
next
  case (2 c n s e rs t)
  then have sc: "s = c" and ce: "c \<le> e" and ih: "e \<le> t" "covered rs = {e..<t}" "no_overlap rs"
    by auto
  have cov: "covered ((n, s, e) # rs) = {c..<t}"
    using sc ce ih by (auto simp: covered_def)
  have dis: "\<forall>(n', s', e') \<in> set rs. {s..<e} \<inter> {s'..<e'} = {}"
  proof (clarify)
    fix n' s' e' assume m: "(n', s', e') \<in> set rs"
    then have "{s'..<e'} \<subseteq> covered rs" by (auto simp: covered_def)
    with ih(2) show "{s..<e} \<inter> {s'..<e'} = {}" by (auto simp: sc)
  qed
  show ?case using cov dis ih sc ce by simp
qed

lemma learn_range_appends:
  assumes "ranges_inv st" "\<not> collecting st" "push_flag h"
  shows "strings_ranges (learn_range h st)
         = strings_ranges st @ [(next_assigned st, start st, offset h + length_field h)]"
proof -
  have "next_assigned st \<notin> fst ` set (strings_ranges st)"
  proof
    assume "next_assigned st \<in> fst ` set (strings_ranges st)"
    then have "next_assigned st \<in> set (map fst (strings_ranges st))" by simp
    with assms(1) show False by (simp add: ranges_inv_def)
  qed
  with assms show ?thesis by (simp add: learn_range_def Let_def dict_set_fresh)
qed

lemma ranges_ids: "ranges_inv st \<Longrightarrow> map fst (strings_ranges st) = [1..int (length (strings_ranges st))]"
proof -
  assume inv: "ranges_inv st"
  then have m: "map fst (strings_ranges st) = [1..next_assigned st - 1]" and p: "1 \<le> next_assigned st"
    by (simp_all add: ranges_inv_def)
  have "length (map fst (strings_ranges st)) = length [1..next_assigned st - 1]" by (simp only: m)
  with p have "int (length (strings_ranges st)) = next_assigned st - 1" by simp
  with m show ?thesis by simp
qed

section \<open>The example states are reached\<close>

lemma example_skipping_reached:
  "run (example_config 1) [Datagram [1, 0, 0, 0,  0, 0, 0, 0,  0, 3,  0, 0, 0] (clock_at 0)] init_state
   = Continue example_skipping"
  by code_simp


section \<open>The write into a buffer\<close>

lemma write_payload_find:
  "write_payload rs h st =
     (case find (fits h) rs of
        None \<Rightarrow> Ok (False, st)
      | Some (n, s, e) \<Rightarrow>
          (case map_of (buffers st) n of
             None \<Rightarrow> Raise Key_error st
           | Some b \<Rightarrow>
               (case map_of (filled_count st) n of
                  None \<Rightarrow> Raise Key_error
                    (st\<lparr>buffers := dict_set n
                         (slice_assign b (nat (offset h - s)) (nat (offset h - s + length_field h)) (payload h))
                         (buffers st)\<rparr>)
                | Some c \<Rightarrow>
                    Ok (True, st\<lparr>buffers := dict_set n
                         (slice_assign b (nat (offset h - s)) (nat (offset h - s + length_field h)) (payload h))
                         (buffers st),
                       filled_count := dict_set n (c + length_field h) (filled_count st)\<rparr>))))"
  by (induction rs h st rule: write_payload.induct)
     (auto simp: fits_def Let_def split: option.splits)

lemma find_in_set: "find P xs = Some x \<Longrightarrow> x \<in> set xs \<and> P x"
  by (induction xs) (auto split: if_splits)

lemma key_lookup: "k \<in> set (map fst al) \<Longrightarrow> \<exists>v. map_of al k = Some v"
  by (induction al) auto

lemma wf_lookup:
  assumes wf: "wf cfg st" and c: "collecting st" and r: "(n, s, e) \<in> set (strings_ranges st)"
  shows "\<exists>b c. map_of (buffers st) n = Some b \<and> map_of (filled_count st) n = Some c \<and>
               int (length b) = e - s \<and> 0 \<le> c"
proof -
  from r have k: "n \<in> set (map fst (strings_ranges st))" by force
  from wf c have kb: "map fst (buffers st) = map fst (strings_ranges st)"
    and kf: "map fst (filled_count st) = map fst (strings_ranges st)" by (simp_all add: wf_def)
  from key_lookup [of n "buffers st"] k kb obtain b where b: "map_of (buffers st) n = Some b" by auto
  from key_lookup [of n "filled_count st"] k kf obtain cnt where f: "map_of (filled_count st) n = Some cnt" by auto
  from f have "(n, cnt) \<in> set (filled_count st)" by (rule map_of_SomeD)
  then have "cnt \<in> set (map snd (filled_count st))" by force
  with wf have "0 \<le> cnt" by (auto simp: wf_def)
  with b f buffer_length [OF wf c r b] show ?thesis by blast
qed



section \<open>Counts beyond the length of a buffer\<close>

lemma overfullD:
  assumes "overfull st"
  shows "\<exists>n b c. n \<in> set (map fst (buffers st)) \<and> map_of (buffers st) n = Some b \<and>
                 map_of (filled_count st) n = Some c \<and> int (length b) < c"
proof -
  from assms obtain n where n: "n \<in> set (map fst (buffers st))"
    and p: "case map_of (buffers st) n of None \<Rightarrow> False
            | Some b \<Rightarrow> (case map_of (filled_count st) n of None \<Rightarrow> False | Some c \<Rightarrow> int (length b) < c)"
    unfolding overfull_def by blast
  from p obtain b where b: "map_of (buffers st) n = Some b" by (cases "map_of (buffers st) n") auto
  with p obtain c where "map_of (filled_count st) n = Some c" "int (length b) < c"
    by (cases "map_of (filled_count st) n") auto
  with n b show ?thesis by blast
qed

lemma overfullI:
  "n \<in> set (map fst (buffers st)) \<Longrightarrow> map_of (buffers st) n = Some b \<Longrightarrow>
   map_of (filled_count st) n = Some c \<Longrightarrow> int (length b) < c \<Longrightarrow> overfull st"
  unfolding overfull_def by (rule bexI [of _ n]) simp_all

lemma overfull_not_all_full: "overfull st \<Longrightarrow> \<not> all_full st"
proof
  assume o: "overfull st" and a: "all_full st"
  from overfullD [OF o] obtain n b c where b: "map_of (buffers st) n = Some b"
    and f: "map_of (filled_count st) n = Some c" and lt: "int (length b) < c"
    by blast
  from b have "(n, b) \<in> set (buffers st)" by (rule map_of_SomeD)
  with a f have "c = int (length b)" by (auto simp: all_full_def list_all_iff)
  with lt show False by simp
qed

lemma overfull_cong:
  "buffers st' = buffers st \<Longrightarrow> filled_count st' = filled_count st \<Longrightarrow> overfull st' = overfull st"
  by (auto simp: overfull_def split: option.splits)

lemma key_of_lookup: "map_of al k = Some v \<Longrightarrow> k \<in> fst ` set al"
  by (metis map_of_eq_None_iff option.distinct(1))

lemma write_overfull:
  assumes wf: "wf cfg st" and c: "collecting st" and o: "overfull st"
    and len: "0 \<le> length_field h" and pl: "int (length (payload h)) = length_field h"
  shows "\<exists>w st1. write_payload (strings_ranges st) h st = Ok (w, st1) \<and> overfull st1 \<and> sink st1 = sink st"
proof (cases "find (fits h) (strings_ranges st)")
  case None
  with o show ?thesis by (auto simp: write_payload_find)
next
  case (Some r)
  obtain k s e where r: "r = (k, s, e)" by (cases r)
  from find_in_set [OF Some] have mem: "(k, s, e) \<in> set (strings_ranges st)"
    and fit: "s \<le> offset h" "offset h + length_field h \<le> e"
    by (simp_all add: r fits_def)
  from wf_lookup [OF wf c mem] obtain bk ck where
    bk: "map_of (buffers st) k = Some bk" and fk: "map_of (filled_count st) k = Some ck"
    and bl: "int (length bk) = e - s" by blast
  let ?b' = "slice_assign bk (nat (offset h - s)) (nat (offset h - s + length_field h)) (payload h)"
  let ?st1 = "st\<lparr>buffers := dict_set k ?b' (buffers st),
                 filled_count := dict_set k (ck + length_field h) (filled_count st)\<rparr>"
  have lb: "length ?b' = length bk"
    using fit len pl bl by (intro slice_assign_length) auto
  have wp: "write_payload (strings_ranges st) h st = Ok (True, ?st1)"
    by (simp add: write_payload_find Some r bk fk)
  from overfullD [OF o] obtain n b cn where n: "n \<in> set (map fst (buffers st))" and b: "map_of (buffers st) n = Some b"
    and f: "map_of (filled_count st) n = Some cn" and lt: "int (length b) < cn"
    by blast
  have keys: "map fst (buffers ?st1) = map fst (buffers st)"
    using key_of_lookup [OF bk] by (simp add: keys_dict_set)
  have "overfull ?st1"
  proof (cases "n = k")
    case True
    with b bk f fk have "b = bk" "cn = ck" by simp_all
    with lt len lb have "int (length ?b') < ck + length_field h" by simp
    moreover have "k \<in> set (map fst (buffers ?st1))" using n keys True by simp
    moreover have "map_of (buffers ?st1) k = Some ?b'" by (simp add: map_of_dict_set)
    moreover have "map_of (filled_count ?st1) k = Some (ck + length_field h)" by (simp add: map_of_dict_set)
    ultimately show ?thesis by (intro overfullI [of k]) auto
  next
    case False
    have "n \<in> set (map fst (buffers ?st1))" using n keys by simp
    moreover have "map_of (buffers ?st1) n = Some b" using b False by (simp add: map_of_dict_set)
    moreover have "map_of (filled_count ?st1) n = Some cn" using f False by (simp add: map_of_dict_set)
    ultimately show ?thesis using lt by (rule overfullI)
  qed
  with wp show ?thesis by auto
qed

lemma assemble_overfull:
  assumes wf: "wf cfg st" and c: "collecting st" and o: "overfull st"
    and len: "0 \<le> length_field h" and pl: "int (length (payload h)) = length_field h"
  shows "\<exists>st1. assemble cfg ck h st = Continue st1 \<and> overfull st1 \<and> sink st1 = sink st"
proof -
  from write_overfull [OF wf c o len pl] obtain w st1 where
    wp: "write_payload (strings_ranges st) h st = Ok (w, st1)" and o1: "overfull st1"
    and s1: "sink st1 = sink st" by blast
  from overfull_not_all_full [OF o1] wp have "assemble cfg ck h st = Continue st1"
    by (simp add: assemble_def)
  with o1 s1 show ?thesis by simp
qed

lemma overfull_collecting: "wf cfg st \<Longrightarrow> overfull st \<Longrightarrow> collecting st"
  by (auto simp: wf_def overfull_def split: if_splits)

lemma step_overfull:
  assumes wf: "wf cfg st" and o: "overfull st"
  shows "overfull (outcome_state (step cfg ev st)) \<and> sink (outcome_state (step cfg ev st)) = sink st"
proof (cases ev)
  case (Recv_timeout now)
  with o show ?thesis by (simp add: handle_timeout_state)
next
  case (Datagram d ck)
  have c: "collecting st" using wf o by (rule overfull_collecting)
  show ?thesis
  proof (cases "decode d")
    case (Inl e)
    have "overfull (st\<lparr>packets_seen := packets_seen st + 1\<rparr>)"
      using o overfull_cong [of "st\<lparr>packets_seen := packets_seen st + 1\<rparr>" st] by simp
    with Inl Datagram o show ?thesis by (cases e) simp_all
  next
    case (Inr h)
    let ?st1 = "st\<lparr>packets_seen := packets_seen st + 1\<rparr>"
    have s: "step cfg ev st = handle_packet cfg ck h ?st1" using Inr Datagram by simp
    have dc: "discover cfg h ?st1 = Ok ?st1" using c by (simp add: discover_collecting)
    have len: "0 \<le> length_field h" and pl: "int (length (payload h)) = length_field h"
      using decode_Inr [OF Inr] by simp_all
    show ?thesis
    proof (cases "is_beginning st \<and> is_empty_bytearray (payload h)")
      case True
      have "overfull (?st1\<lparr>empty_frames := empty_frames ?st1 + 1\<rparr>)"
        using o overfull_cong [of "?st1\<lparr>empty_frames := empty_frames ?st1 + 1\<rparr>" st] by simp
      with True dc show ?thesis unfolding s by (simp add: handle_packet_def)
    next
      case False
      define st3 where "st3 = (if is_beginning ?st1
                       then ?st1\<lparr>is_beginning := False, start_time := Some (now_start ck),
                                last_frame_time := Some (now_last ck)\<rparr>
                       else ?st1)"
      have wf3: "wf cfg st3" using wf by (simp add: st3_def wf_started wf_counted)
      have c3: "collecting st3" using c by (simp add: st3_def)
      have o3: "overfull st3" using o overfull_cong [of st3 st] by (simp add: st3_def)
      have s3: "sink st3 = sink st" by (simp add: st3_def)
      have h3: "handle_packet cfg ck h ?st1 = assemble cfg ck h st3"
        using False dc c3 by (auto simp: handle_packet_def Let_def st3_def)
      from assemble_overfull [OF wf3 c3 o3 len pl, of ck] s3 show ?thesis
        unfolding s h3 by auto
    qed
  qed
qed

lemma run_overfull:
  "wf cfg st \<Longrightarrow> overfull st \<Longrightarrow>
   overfull (outcome_state (run cfg evs st)) \<and> sink (outcome_state (run cfg evs st)) = sink st"
proof (induction evs arbitrary: st)
  case Nil
  then show ?case by simp
next
  case (Cons ev evs)
  from step_overfull [OF Cons.prems, of ev]
  have so: "overfull (outcome_state (step cfg ev st))" "sink (outcome_state (step cfg ev st)) = sink st"
    by simp_all
  show ?case
  proof (cases "step cfg ev st")
    case (Continue st1)
    with so have o1: "overfull st1" and s1: "sink st1 = sink st" by simp_all
    from step_wf [OF Cons.prems(1) Continue] have wf1: "wf cfg st1" .
    from Cons.IH [OF wf1 o1] s1 Continue show ?thesis by simp
  next
    case (Finished r st1)
    with so show ?thesis by simp
  next
    case (Crashed err st1)
    with so show ?thesis by simp
  qed
qed

section \<open>Bounds of the fill counts\<close>









lemma example_overfull_reached:
  "run (example_config 1)
     [Datagram [1, 0, 0, 0,  0, 0, 0, 3,  0, 3,  1, 2, 3] (clock_at 0),
      Datagram [0, 0, 0, 0,  0, 0, 0, 0,  0, 6,  1, 2, 3, 4, 5, 6] (clock_at 0)] init_state
   = Continue example_overfull"
  by code_simp

lemma example_config_strings: "number_of_strings (example_config n) = n"
  by (simp add: example_config_def)

section \<open>Finalizing discovery\<close>

lemma foldl_max: "foldl max (x::int) xs = Max (set (x # xs))"
proof (induction xs arbitrary: x)
  case Nil
  show ?case by simp
next
  case (Cons a xs)
  have "Max (set (max x a # xs)) = Max (set (x # a # xs))"
    by (cases "xs = []") (auto simp: max.assoc max.commute max.left_commute)
  with Cons [of "max x a"] show ?case by simp
qed

lemma max_string_len_Max:
  "rs \<noteq> [] \<Longrightarrow> max_string_len rs = Some (Max ((\<lambda>(n, s, e). e - s) ` set rs))"
proof -
  assume "rs \<noteq> []"
  then obtain r rs' where rs: "rs = r # rs'" by (cases rs) auto
  have "foldl max ((\<lambda>(n, s, e). e - s) r) (map (\<lambda>(n, s, e). e - s) rs')
        = Max (set (map (\<lambda>(n, s, e). e - s) (r # rs')))"
    using foldl_max [of "(\<lambda>(n, s, e). e - s) r" "map (\<lambda>(n, s, e). e - s) rs'"] by simp
  then show ?thesis by (simp add: max_string_len_def rs)
qed

lemma to_bytes_le_2: "0 \<le> x \<Longrightarrow> x < 65536 \<Longrightarrow> to_bytes_le 2 x = Some [word_of_int x, word_of_int (x div 256)]"
  by (simp add: to_bytes_le_def upt_rec numeral_2_eq_2)


lemma allocate_nonneg:
  "\<forall>(n, s, e) \<in> set rs. s \<le> e \<Longrightarrow> \<exists>st'. allocate rs st = Ok st'"
proof (induction rs arbitrary: st)
  case Nil
  show ?case by simp
next
  case (Cons r rs)
  obtain n s e where r: "r = (n, s, e)" by (cases r)
  from Cons.prems have "s \<le> e" and rest: "\<forall>(n, s, e) \<in> set rs. s \<le> e" by (auto simp: r)
  with Cons.IH [OF rest] show ?case by (simp add: r Let_def)
qed

lemma Max_nonneg:
  "rs \<noteq> [] \<Longrightarrow> \<forall>(n, s, e) \<in> set rs. s \<le> e \<Longrightarrow> (0::int) \<le> Max ((\<lambda>(n, s, e). e - s) ` set rs)"
proof -
  assume ne: "rs \<noteq> []" and a: "\<forall>(n, s, e) \<in> set rs. s \<le> e"
  then obtain r where r: "r \<in> set rs" by (cases rs) auto
  obtain n s e where "r = (n, s, e)" by (cases r)
  with r a have "(0::int) \<le> (\<lambda>(n, s, e). e - s) r" by auto
  also have "\<dots> \<le> Max ((\<lambda>(n, s, e). e - s) ` set rs)" using r by (intro Max_ge) auto
  finally show ?thesis .
qed

lemma wf_sink:
  assumes "wf cfg st"
  shows "length (filter is_create (sink st)) = (if collecting st then 1 else 0)"
proof (cases "collecting st")
  case False
  with assms show ?thesis by (simp add: wf_def)
next
  case True
  with assms have "finalized st" by (simp add: wf_def)
  then obtain msl w ws where s: "sink st = w # ws"
    and e: "Some w = map_option Create (to_bytes_le 2 (msl div 3))"
    and ws: "list_all (\<lambda>w. \<not> is_create w) ws"
    by (auto simp: finalized_def split: option.splits list.splits)
  from e obtain hdr where w: "w = Create hdr" by (cases "to_bytes_le 2 (msl div 3)") auto
  from ws have "filter is_create ws = []" by (simp add: list_all_iff filter_empty_conv)
  with s w True show ?thesis by simp
qed

section \<open>Completing a frame\<close>









section \<open>The claims\<close>

subsection \<open>C1: push packets out of order\<close>

text \<open>
  C1 says that processing never raises an unhandled exception, and that range assignment,
  the header write and the buffer allocation succeed for every order of push packets.
  With two strings to learn, a push packet for offset 3, length 3 followed by a push
  packet for offset 0, length 3 gives the second string the range \<open>(6, 3)\<close>; its length is
  \<open>-3\<close>, \<open>bytearray(-3)\<close> raises ValueError, and nothing catches it.
\<close>

theorem reordered_pushes_crash:
  "crash_of (run (example_config 2)
      [Datagram [1, 0, 0, 0,  0, 0, 0, 3,  0, 3,  1, 2, 3] (clock_at 0),
       Datagram [1, 0, 0, 0,  0, 0, 0, 0,  0, 3,  1, 2, 3] (clock_at 0)]
      init_state) = Some Value_error"
  by code_simp

subsection \<open>C2: bounds of the fill counts\<close>




subsection \<open>C3: the learned ranges\<close>

text \<open>
  C3, as amended. After any sequence of datagrams the learned ranges, in assignment
  order, have the ids 1, 2, ..., the first starts at 0, each of the others starts where the
  one before it ends, and the cursor is the end of the last one; every push packet seen
  during discovery appends the range from the cursor to its \<open>offset + length\<close>. When no
  range ends before it starts (the ends of the push packets never decrease), the ranges
  are pairwise disjoint and cover exactly \<open>[0, totalLength)\<close>. Without that condition
  they need not.
\<close>

theorem learned_ranges_contiguous:
  "(let st = outcome_state (run cfg evs init_state); rs = strings_ranges st
    in contiguous_from 0 rs (start st) \<and> map fst rs = [1..int (length rs)] \<and>
       ((\<forall>(n, s, e) \<in> set rs. s \<le> e) \<longrightarrow> no_overlap rs \<and> covered rs = {0..<start st}))
   \<and> (\<forall>h st. ranges_inv st \<and> \<not> collecting st \<and> push_flag h \<longrightarrow>
         strings_ranges (learn_range h st)
         = strings_ranges st @ [(next_assigned st, start st, offset h + length_field h)])"
proof -
  let ?st = "outcome_state (run cfg evs init_state)"
  have inv: "ranges_inv ?st" by (rule run_inv [OF init_ranges_inv])
  then have c: "contiguous_from 0 (strings_ranges ?st) (start ?st)" by (simp add: ranges_inv_def)
  show ?thesis
    using c ranges_ids [OF inv] contiguous_partition [OF c] learn_range_appends
    by (simp add: Let_def)
qed

theorem learned_ranges_contiguous_witness:
  "strings_ranges (outcome_state (run (example_config 2)
      [Datagram [1, 0, 0, 0,  0, 0, 0, 0,  0, 3,  1, 2, 3] (clock_at 0),
       Datagram [1, 0, 0, 0,  0, 0, 0, 3,  0, 3,  1, 2, 3] (clock_at 0)]
      init_state)) = [(1, 0, 3), (2, 3, 6)]
   \<and> no_overlap [(1, 0, 3), (2, 3, 6)] \<and> covered [(1, 0, 3), (2, 3, 6)] = {0..<6}"
proof -
  let ?evs = "[Datagram [1, 0, 0, 0,  0, 0, 0, 0,  0, 3,  1, 2, 3] (clock_at 0),
       Datagram [1, 0, 0, 0,  0, 0, 0, 3,  0, 3,  1, 2, 3] (clock_at 0)]"
  have r: "strings_ranges (outcome_state (run (example_config 2) ?evs init_state)) = [(1, 0, 3), (2, 3, 6)]"
    by code_simp
  have s: "start (outcome_state (run (example_config 2) ?evs init_state)) = 6"
    by code_simp
  show ?thesis
    using learned_ranges_contiguous [of "example_config 2" ?evs]
    unfolding Let_def r s by simp
qed

text \<open>
  Three push packets ending at 6, 3 and 9 give the ranges \<open>(0, 6)\<close>, \<open>(6, 3)\<close> and \<open>(3, 9)\<close>:
  the first and the third overlap. (With three strings to learn, the third packet also
  ends discovery, and the allocation then fails on the second range, as in C1.)
\<close>

theorem out_of_order_pushes_overlap:
  "\<not> no_overlap (strings_ranges (outcome_state (run (example_config 3)
      [Datagram [1, 0, 0, 0,  0, 0, 0, 3,  0, 3,  1, 2, 3] (clock_at 0),
       Datagram [1, 0, 0, 0,  0, 0, 0, 0,  0, 3,  1, 2, 3] (clock_at 0),
       Datagram [1, 0, 0, 0,  0, 0, 0, 6,  0, 3,  1, 2, 3] (clock_at 0)]
      init_state)))"
  by code_simp

subsection \<open>C4: the frame record\<close>




subsection \<open>C5: which range takes a packet\<close>



subsection \<open>C6: datagrams that do not parse\<close>




subsection \<open>C7: the idle timeout\<close>

text \<open>
  C7, as amended. The loop ends with the idle timeout only in an iteration where the
  receive timed out (never while a datagram is processed), and only when discovery is
  finalized, a non-empty payload has been seen, and at least 5 seconds have passed since
  \<open>last_frame_time\<close>; the state is left as it is. The number of completed frames is not part
  of the condition: \<open>last_frame_time\<close> is first set when the first non-empty payload arrives.
\<close>

theorem idle_timeout_condition:
  assumes "step cfg ev st = Finished Idle_timeout st'"
  shows "\<exists>now lft. ev = Recv_timeout now \<and> collecting st \<and> \<not> is_beginning st \<and>
           last_frame_time st = Some lft \<and> 5000000 \<le> now - lft \<and> st' = st"
proof (cases ev)
  case (Datagram d ck)
  with assms handle_packet_not_idle show ?thesis
    by (auto split: sum.splits decode_error.splits)
next
  case (Recv_timeout now)
  with assms show ?thesis
    by (auto simp: handle_timeout_def split: option.splits if_splits)
qed

theorem idle_timeout_condition_witness:
  "step (example_config 2) (Recv_timeout 5000000) example_capturing = Finished Idle_timeout example_capturing
   \<and> collecting example_capturing \<and> \<not> is_beginning example_capturing"
proof -
  have s: "step (example_config 2) (Recv_timeout 5000000) example_capturing
           = Finished Idle_timeout example_capturing"
    by code_simp
  from idle_timeout_condition [OF s] s show ?thesis by auto
qed

text \<open>
  One string; a push packet for offset 3, length 3 fills half of its buffer; five seconds
  later the receive times out. The session ends with the idle timeout and no frame.
\<close>

theorem idle_timeout_without_frame:
  "exit_of (run (example_config 1)
      [Datagram [1, 0, 0, 0,  0, 0, 0, 3,  0, 3,  1, 2, 3] (clock_at 0), Recv_timeout 5000000]
      init_state) = Some Idle_timeout
   \<and> frames_written (outcome_state (run (example_config 1)
      [Datagram [1, 0, 0, 0,  0, 0, 0, 3,  0, 3,  1, 2, 3] (clock_at 0), Recv_timeout 5000000]
      init_state)) = Some 0"
  by code_simp

subsection \<open>C8: finalizing discovery\<close>

text \<open>
  C8 says that when the number of ranges reaches \<open>number_of_strings\<close>, discovery finalizes:
  the header record is written and every range gets a buffer of zeros of its own length.
  With two strings to learn, two push packets ending at 6 and at 3 give the second
  string the range \<open>(6, 3)\<close>: the header is written, the first buffer is allocated, and
  \<open>bytearray(-3)\<close> raises ValueError for the second, as in C1. And a single push packet for
  offset 196608, length 0 gives 65536 pixels: \<open>to_bytes(2)\<close> raises OverflowError, and the
  file is left empty.
\<close>

theorem finalization_can_fail:
  "crash_of (run (example_config 2)
      [Datagram [1, 0, 0, 0,  0, 0, 0, 3,  0, 3,  1, 2, 3] (clock_at 0),
       Datagram [1, 0, 0, 0,  0, 0, 0, 0,  0, 3,  1, 2, 3] (clock_at 0)] init_state) = Some Value_error
   \<and> strings_ranges (outcome_state (run (example_config 2)
      [Datagram [1, 0, 0, 0,  0, 0, 0, 3,  0, 3,  1, 2, 3] (clock_at 0),
       Datagram [1, 0, 0, 0,  0, 0, 0, 0,  0, 3,  1, 2, 3] (clock_at 0)] init_state))
       = [(1, 0, 6), (2, 6, 3)]
   \<and> buffers (outcome_state (run (example_config 2)
      [Datagram [1, 0, 0, 0,  0, 0, 0, 3,  0, 3,  1, 2, 3] (clock_at 0),
       Datagram [1, 0, 0, 0,  0, 0, 0, 0,  0, 3,  1, 2, 3] (clock_at 0)] init_state))
       = [(1, [0, 0, 0, 0, 0, 0])]
   \<and> collecting (outcome_state (run (example_config 2)
      [Datagram [1, 0, 0, 0,  0, 0, 0, 3,  0, 3,  1, 2, 3] (clock_at 0),
       Datagram [1, 0, 0, 0,  0, 0, 0, 0,  0, 3,  1, 2, 3] (clock_at 0)] init_state)) = False
   \<and> crash_of (run (example_config 1)
      [Datagram [1, 0, 0, 0,  0, 3, 0, 0,  0, 0] (clock_at 0)] init_state) = Some Overflow_error
   \<and> strings_ranges (outcome_state (run (example_config 1)
      [Datagram [1, 0, 0, 0,  0, 3, 0, 0,  0, 0] (clock_at 0)] init_state)) = [(1, 0, 196608)]
   \<and> sink (outcome_state (run (example_config 1)
      [Datagram [1, 0, 0, 0,  0, 3, 0, 0,  0, 0] (clock_at 0)] init_state)) = [Create []]"
  by code_simp

text \<open>
  What the block does when it does not raise. A push packet seen during discovery appends
  its range. While fewer than \<open>number_of_strings\<close> ranges are learned nothing else
  happens. When the appended range is the last one, no range ends before it starts, and
  the largest range length divided by 3 (rounding down) is below 65536, discovery
  finalizes in that same iteration: \<open>max_bytes\<close> is that quotient times 3, the file is
  created with the quotient in two bytes, least significant first, as its only content,
  and every range gets a buffer of zeros of its own length and a fill count of 0. In every
  session the file is created at most once, and exactly once when discovery is finalized.
\<close>

proposition discovery_finalizes:
  assumes wf: "wf cfg st" and nc: "\<not> collecting st" and push: "push_flag h"
    and rs: "rs = strings_ranges st @ [(next_assigned st, start st, offset h + length_field h)]"
    and mp: "mp = Max ((\<lambda>(n, s, e). e - s) ` set rs) div 3"
  shows "(int (length rs) < number_of_strings cfg \<longrightarrow>
            discover cfg h st = Ok (st\<lparr>strings_ranges := rs, next_assigned := next_assigned st + 1,
                                       start := offset h + length_field h\<rparr>)) \<and>
         (int (length rs) = number_of_strings cfg \<and> (\<forall>(n, s, e) \<in> set rs. s \<le> e) \<and> mp < 65536 \<longrightarrow>
            discover cfg h st =
              Ok (st\<lparr>strings_ranges := rs, next_assigned := next_assigned st + 1,
                     start := offset h + length_field h,
                     sink := [Create [word_of_int mp, word_of_int (mp div 256)]],
                     buffers := map (\<lambda>(n, s, e). (n, replicate (nat (e - s)) 0)) rs,
                     filled_count := map (\<lambda>(n, s, e). (n, 0)) rs,
                     max_bytes := Some (mp * 3), collecting := True, frames_written := Some 0\<rparr>)) \<and>
         (\<forall>evs st'. 0 < number_of_strings cfg \<and> run cfg evs init_state = Continue st' \<longrightarrow>
            length (filter is_create (sink st')) = (if collecting st' then 1 else 0))"
proof -
  have inv: "ranges_inv st" using wf by (simp add: wf_def)
  have empty: "buffers st = []" "filled_count st = []" "sink st = []"
    using wf nc by (simp_all add: wf_def)
  let ?st1 = "st\<lparr>strings_ranges := rs, next_assigned := next_assigned st + 1,
                 start := offset h + length_field h\<rparr>"
  have l1: "learn_range h st = ?st1"
    using learn_range_appends [OF inv nc push] nc push
    by (simp add: learn_range_def Let_def rs)
  have a: "int (length rs) < number_of_strings cfg \<longrightarrow> discover cfg h st = Ok ?st1"
    using nc by (simp add: discover_def l1)
  have b: "int (length rs) = number_of_strings cfg \<and> (\<forall>(n, s, e) \<in> set rs. s \<le> e) \<and> mp < 65536 \<longrightarrow>
            discover cfg h st =
              Ok (st\<lparr>strings_ranges := rs, next_assigned := next_assigned st + 1,
                     start := offset h + length_field h,
                     sink := [Create [word_of_int mp, word_of_int (mp div 256)]],
                     buffers := map (\<lambda>(n, s, e). (n, replicate (nat (e - s)) 0)) rs,
                     filled_count := map (\<lambda>(n, s, e). (n, 0)) rs,
                     max_bytes := Some (mp * 3), collecting := True, frames_written := Some 0\<rparr>)"
  proof (intro impI, elim conjE)
    assume full: "int (length rs) = number_of_strings cfg"
      and nonneg: "\<forall>(n, s, e) \<in> set rs. s \<le> e" and small: "mp < 65536"
    have ne: "rs \<noteq> []" by (simp add: rs)
    have msl: "max_string_len rs = Some (Max ((\<lambda>(n, s, e). e - s) ` set rs))"
      using ne by (rule max_string_len_Max)
    have mp0: "0 \<le> mp" using Max_nonneg [OF ne nonneg] by (simp add: mp)
    have hdr: "to_bytes_le 2 mp = Some [word_of_int mp, word_of_int (mp div 256)]"
      using mp0 small by (rule to_bytes_le_2)
    let ?st2 = "?st1\<lparr>sink := sink ?st1 @ [Create [word_of_int mp, word_of_int (mp div 256)]]\<rparr>"
    from allocate_nonneg [OF nonneg] obtain st3 where al: "allocate rs ?st2 = Ok st3" by blast
    have d: "distinct (map fst rs)"
      using learn_range_inv [OF inv, of h] by (simp add: l1 ranges_inv_def)
    from allocate_Ok [OF al d] empty
    have st3: "st3 = ?st2\<lparr>buffers := map (\<lambda>(n, s, e). (n, replicate (nat (e - s)) 0)) rs,
                          filled_count := map (\<lambda>(n, s, e). (n, 0)) rs\<rparr>"
      by simp
    have "finalize ?st1 = Ok (st3\<lparr>max_bytes := Some (mp * 3), collecting := True,
                               frames_written := Some 0\<rparr>)"
      using msl hdr al by (simp add: finalize_def Let_def mp)
    then show "discover cfg h st =
              Ok (st\<lparr>strings_ranges := rs, next_assigned := next_assigned st + 1,
                     start := offset h + length_field h,
                     sink := [Create [word_of_int mp, word_of_int (mp div 256)]],
                     buffers := map (\<lambda>(n, s, e). (n, replicate (nat (e - s)) 0)) rs,
                     filled_count := map (\<lambda>(n, s, e). (n, 0)) rs,
                     max_bytes := Some (mp * 3), collecting := True, frames_written := Some 0\<rparr>)"
      using nc full empty by (simp add: discover_def l1 st3)
  qed
  have c: "\<forall>evs st'. 0 < number_of_strings cfg \<and> run cfg evs init_state = Continue st' \<longrightarrow>
            length (filter is_create (sink st')) = (if collecting st' then 1 else 0)"
    using reachable_wf wf_sink by blast
  from a b c show ?thesis by blast
qed

text \<open>Scenario A: a single string of range \<open>(0, 30)\<close> gives 10 pixels.\<close>

lemma discovery_finalizes_example:
  "discover (example_config 1)
     \<lparr>flags1 = 1, flags2 = 0, data_type = 0, string_id = 0, offset = 0, length_field = 30,
      has_timecode = False, timecode = None, payload = replicate 30 1\<rparr> init_state
   = Ok (init_state\<lparr>strings_ranges := [(1, 0, 30)], next_assigned := 2, start := 30,
           sink := [Create [10, 0]], buffers := [(1, replicate 30 0)], filled_count := [(1, 0)],
           max_bytes := Some 30, collecting := True, frames_written := Some 0\<rparr>)"
proof -
  let ?h = "\<lparr>flags1 = 1, flags2 = 0, data_type = 0, string_id = 0, offset = 0, length_field = 30,
      has_timecode = False, timecode = None, payload = replicate 30 (1::byte)\<rparr>"
  have wf: "wf (example_config 1) init_state" by (rule init_wf) (simp add: example_config_def)
  have nc: "\<not> collecting init_state" by (simp add: init_state_def)
  have push: "push_flag ?h" by (simp add: push_flag_def)
  have rs: "[(1, 0, 30)] = strings_ranges init_state @
               [(next_assigned init_state, start init_state, offset ?h + length_field ?h)]"
    by (simp add: init_state_def)
  have mp: "(10::int) = Max ((\<lambda>(n, s, e). e - s) ` set [(1::int, 0::int, 30::int)]) div 3" by simp
  from discovery_finalizes [OF wf nc push rs mp]
  show ?thesis by (simp add: example_config_def init_state_def)
qed

subsection \<open>C9: leading empty packets\<close>

text \<open>
  C9 says that after discovery is finalized every packet with an all-zero payload is
  counted and discarded until the first packet with a non-zero byte arrives, and that this
  packet sets the start time. The loop prints "Waiting for non empty packets to start
  capturing frames..." when discovery is finalized, and its comments say "don't record
  empty byte arrays at beginning of file" and "The recording starts here". But the test
  for the skip does not look at \<open>collecting\<close>. With one string to learn: a packet without
  push flag and with payload \<open>1 2 3\<close> arrives during discovery and clears \<open>is_beginning\<close>;
  seven seconds later the push packet arrives with an all-zero payload. It finalizes
  discovery, is handed to the assembler, and is written as the first frame of the file,
  with the timestamp 7000 ms.
\<close>

theorem zero_packet_recorded_after_discovery:
  "is_empty_bytearray [0, 0, 0] \<and>
   run (example_config 1)
     [Datagram [0, 0, 0, 0,  0, 0, 0, 0,  0, 3,  1, 2, 3] (clock_at 0),
      Datagram [1, 0, 0, 0,  0, 0, 0, 0,  0, 3,  0, 0, 0] (clock_at 7000000)] init_state
   = Continue \<lparr>strings_ranges = [(1, 0, 3)], next_assigned = 2, packets_seen = 2, start = 3,
       is_beginning = False, empty_frames = 0, collecting = True, buffers = [(1, [0, 0, 0])],
       filled_count = [(1, 0)], max_bytes = Some 3, last_frame_time = Some 7000000,
       start_time = Some 0, frames_written = Some 1,
       sink = [Create [1, 0], Append [88, 27, 0, 0,  0, 0, 0]]\<rparr>"
  by code_simp

text \<open>
  What the loop does with the flag, in general. Once discovery is finalized and while the
  flag is set, a packet whose payload is all zeros is counted and discarded: only
  \<open>packets_seen\<close> and \<open>empty_frames\<close> change. The first packet with a non-zero byte clears
  the flag and sets \<open>start_time\<close> and \<open>last_frame_time\<close> to the current time, during
  discovery too; when discovery is finalized it is handed to the assembler in that state.
  Once the flag is cleared it stays so, \<open>start_time\<close> is not set again, and every packet
  is handed to the assembler, all-zero ones too.
\<close>

proposition leading_empty_skip:
  assumes d: "decode d = Inr h"
  shows "(collecting st \<and> is_beginning st \<and> is_empty_bytearray (payload h) \<longrightarrow>
            step cfg (Datagram d ck) st =
              Continue (st\<lparr>packets_seen := packets_seen st + 1, empty_frames := empty_frames st + 1\<rparr>)) \<and>
         (collecting st \<and> is_beginning st \<and> \<not> is_empty_bytearray (payload h) \<longrightarrow>
            step cfg (Datagram d ck) st =
              assemble cfg ck h (st\<lparr>packets_seen := packets_seen st + 1, is_beginning := False,
                                     start_time := Some (now_start ck),
                                     last_frame_time := Some (now_last ck)\<rparr>)) \<and>
         (collecting st \<and> \<not> is_beginning st \<longrightarrow>
            step cfg (Datagram d ck) st = assemble cfg ck h (st\<lparr>packets_seen := packets_seen st + 1\<rparr>)) \<and>
         (is_beginning st \<and> \<not> is_empty_bytearray (payload h) \<longrightarrow>
            (\<forall>st'. step cfg (Datagram d ck) st = Continue st' \<longrightarrow>
                   \<not> is_beginning st' \<and> start_time st' = Some (now_start ck))) \<and>
         (\<not> is_beginning st \<longrightarrow>
            (\<forall>st'. step cfg (Datagram d ck) st = Continue st' \<longrightarrow>
                   \<not> is_beginning st' \<and> start_time st' = start_time st)) \<and>
         (is_empty_bytearray (payload h) \<longleftrightarrow> (\<forall>b \<in> set (payload h). b = 0))"
proof -
  let ?st1 = "st\<lparr>packets_seen := packets_seen st + 1\<rparr>"
  have s: "step cfg (Datagram d ck) st = handle_packet cfg ck h ?st1" using d by simp
  have dc: "collecting st \<Longrightarrow> discover cfg h ?st1 = Ok ?st1" by (simp add: discover_collecting)
  have a: "collecting st \<and> is_beginning st \<and> is_empty_bytearray (payload h) \<longrightarrow>
            step cfg (Datagram d ck) st =
              Continue (st\<lparr>packets_seen := packets_seen st + 1, empty_frames := empty_frames st + 1\<rparr>)"
    unfolding s using dc by (simp add: handle_packet_def)
  have b: "collecting st \<and> is_beginning st \<and> \<not> is_empty_bytearray (payload h) \<longrightarrow>
            step cfg (Datagram d ck) st =
              assemble cfg ck h (st\<lparr>packets_seen := packets_seen st + 1, is_beginning := False,
                                     start_time := Some (now_start ck),
                                     last_frame_time := Some (now_last ck)\<rparr>)"
    unfolding s using dc by (simp add: handle_packet_def)
  have c: "collecting st \<and> \<not> is_beginning st \<longrightarrow>
            step cfg (Datagram d ck) st = assemble cfg ck h (st\<lparr>packets_seen := packets_seen st + 1\<rparr>)"
    unfolding s using dc by (simp add: handle_packet_def)
  have e: "is_beginning st \<and> \<not> is_empty_bytearray (payload h) \<longrightarrow>
            (\<forall>st'. step cfg (Datagram d ck) st = Continue st' \<longrightarrow>
                   \<not> is_beginning st' \<and> start_time st' = Some (now_start ck))"
  proof (intro impI allI, elim conjE)
    fix st' assume beg: "is_beginning st" and ne: "\<not> is_empty_bytearray (payload h)"
      and k: "step cfg (Datagram d ck) st = Continue st'"
    from k s have k': "handle_packet cfg ck h ?st1 = Continue st'" by simp
    then obtain st2 where d2: "discover cfg h ?st1 = Ok st2"
      by (cases "discover cfg h ?st1") (auto simp: handle_packet_def)
    from discover_frame [OF d2] beg have b2: "is_beginning st2" by simp
    let ?st3 = "st2\<lparr>is_beginning := False, start_time := Some (now_start ck),
                    last_frame_time := Some (now_last ck)\<rparr>"
    show "\<not> is_beginning st' \<and> start_time st' = Some (now_start ck)"
    proof (cases "collecting st2")
      case True
      with k' d2 b2 ne have "assemble cfg ck h ?st3 = Continue st'" by (simp add: handle_packet_def)
      from assemble_frame [OF this] show ?thesis by simp
    next
      case False
      with k' d2 b2 ne have "st' = ?st3" by (simp add: handle_packet_def)
      then show ?thesis by simp
    qed
  qed
  have f: "\<not> is_beginning st \<longrightarrow>
            (\<forall>st'. step cfg (Datagram d ck) st = Continue st' \<longrightarrow>
                   \<not> is_beginning st' \<and> start_time st' = start_time st)"
  proof (intro impI allI)
    fix st' assume nb: "\<not> is_beginning st"
      and k: "step cfg (Datagram d ck) st = Continue st'"
    from k s have k': "handle_packet cfg ck h ?st1 = Continue st'" by simp
    then obtain st2 where d2: "discover cfg h ?st1 = Ok st2"
      by (cases "discover cfg h ?st1") (auto simp: handle_packet_def)
    from discover_frame [OF d2] nb have b2: "\<not> is_beginning st2" "start_time st2 = start_time st"
      by simp_all
    show "\<not> is_beginning st' \<and> start_time st' = start_time st"
    proof (cases "collecting st2")
      case True
      with k' d2 b2 have "assemble cfg ck h st2 = Continue st'" by (simp add: handle_packet_def)
      from assemble_frame [OF this] b2 show ?thesis by simp
    next
      case False
      with k' d2 b2 have "st' = st2" by (simp add: handle_packet_def)
      with b2 show ?thesis by simp
    qed
  qed
  from a b c e f is_empty_bytearray_iff [of "payload h"] show ?thesis by blast
qed

lemma leading_empty_skip_example:
  "step (example_config 1) (Datagram [0, 0, 0, 0,  0, 0, 0, 0,  0, 3,  0, 0, 0] (clock_at 5)) example_skipping
     = Continue (example_skipping\<lparr>packets_seen := 2, empty_frames := 2\<rparr>)
   \<and> step (example_config 1) (Datagram [0, 0, 0, 0,  0, 0, 0, 0,  0, 2,  7, 0] (clock_at 9)) example_skipping
     = Continue (example_skipping\<lparr>packets_seen := 2, is_beginning := False, start_time := Some 9,
                  last_frame_time := Some 9, buffers := [(1, [7, 0, 0])], filled_count := [(1, 2)]\<rparr>)"
proof -
  have d0: "decode [0, 0, 0, 0,  0, 0, 0, 0,  0, (3::byte),  0, 0, 0] = Inr \<lparr>flags1 = 0, flags2 = 0, data_type = 0,
      string_id = 0, offset = 0, length_field = 3, has_timecode = False, timecode = None, payload = [0, 0, 0]\<rparr>"
    by code_simp
  have d1: "decode [0, 0, 0, 0,  0, 0, 0, 0,  0, (2::byte),  7, 0] = Inr \<lparr>flags1 = 0, flags2 = 0, data_type = 0,
      string_id = 0, offset = 0, length_field = 2, has_timecode = False, timecode = None, payload = [7, 0]\<rparr>"
    by code_simp
  have a: "assemble (example_config 1) (clock_at 9) \<lparr>flags1 = 0, flags2 = 0, data_type = 0,
      string_id = 0, offset = 0, length_field = 2, has_timecode = False, timecode = None, payload = [7, 0]\<rparr>
      (example_skipping\<lparr>packets_seen := packets_seen example_skipping + 1, is_beginning := False,
          start_time := Some (now_start (clock_at 9)), last_frame_time := Some (now_last (clock_at 9))\<rparr>)
     = Continue (example_skipping\<lparr>packets_seen := 2, is_beginning := False, start_time := Some 9,
                  last_frame_time := Some 9, buffers := [(1, [7, 0, 0])], filled_count := [(1, 2)]\<rparr>)"
    by code_simp
  have e0: "is_empty_bytearray [0, 0, 0]" by (simp add: is_empty_bytearray_def)
  have e1: "\<not> is_empty_bytearray [7, 0]" by (simp add: is_empty_bytearray_def)
  have c: "collecting example_skipping" "is_beginning example_skipping"
    "packets_seen example_skipping = 1" "empty_frames example_skipping = 1"
    by (simp_all add: example_skipping_def)
  from leading_empty_skip [OF d0, of example_skipping "example_config 1" "clock_at 5"] e0 c
  have "step (example_config 1) (Datagram [0, 0, 0, 0,  0, 0, 0, 0,  0, 3,  0, 0, 0] (clock_at 5)) example_skipping
     = Continue (example_skipping\<lparr>packets_seen := 2, empty_frames := 2\<rparr>)"
    by simp
  moreover from leading_empty_skip [OF d1, of example_skipping "example_config 1" "clock_at 9"] e1 c a
  have "step (example_config 1) (Datagram [0, 0, 0, 0,  0, 0, 0, 0,  0, 2,  7, 0] (clock_at 9)) example_skipping
     = Continue (example_skipping\<lparr>packets_seen := 2, is_beginning := False, start_time := Some 9,
                  last_frame_time := Some 9, buffers := [(1, [7, 0, 0])], filled_count := [(1, 2)]\<rparr>)"
    by simp
  ultimately show ?thesis by simp
qed

subsection \<open>C10: a count beyond the length\<close>

text \<open>
  C10. Once some buffer has counted more bytes than it holds, whatever arrives afterwards,
  the buffer stays so, the buffers are never all full again, and nothing more is written
  to the file.
\<close>

theorem overfull_blocks_frames:
  assumes "0 < number_of_strings cfg" and "run cfg evs init_state = Continue st" and "overfull st"
  shows "sink (outcome_state (run cfg evs' st)) = sink st \<and>
         overfull (outcome_state (run cfg evs' st)) \<and>
         \<not> all_full (outcome_state (run cfg evs' st))"
proof -
  from reachable_wf [OF assms(1,2)] have wf: "wf cfg st" .
  from run_overfull [OF wf assms(3), of evs'] overfull_not_all_full show ?thesis by blast
qed

theorem overfull_blocks_frames_witness:
  "overfull example_overfull \<and>
   sink (outcome_state (run (example_config 1)
      [Datagram [0, 0, 0, 0,  0, 0, 0, 0,  0, 6,  1, 2, 3, 4, 5, 6] (clock_at 1000),
       Datagram [0, 0, 0, 0,  0, 0, 0, 0,  0, 3,  1, 2, 3] (clock_at 2000)] example_overfull))
     = [Create [2, 0]]"
proof -
  have o: "overfull example_overfull" by (simp add: overfull_def example_overfull_def)
  have p: "0 < number_of_strings (example_config 1)" by (simp add: example_config_strings)
  have s: "sink example_overfull = [Create [2, 0]]" by (simp add: example_overfull_def)
  from overfull_blocks_frames [OF p example_overfull_reached o,
      of "[Datagram [0, 0, 0, 0,  0, 0, 0, 0,  0, 6,  1, 2, 3, 4, 5, 6] (clock_at 1000),
           Datagram [0, 0, 0, 0,  0, 0, 0, 0,  0, 3,  1, 2, 3] (clock_at 2000)]"] o s
  show ?thesis by simp
qed

end
